theory Spec2Isabelle
  imports Main "HOL-Library.Word" "HOL-Library.Sublist"
begin

section \<open>JavaScript strings\<close>

text \<open>
  A JavaScript string is a sequence of 16-bit code units. The regular expressions of
  \<^verbatim>\<open>src/lib/parse.ts\<close> carry no \<^verbatim>\<open>u\<close> flag, so they work on code units too.
  Literals of the source are written \<open>js ''...''\<close>.
\<close>

type_synonym jschar = "16 word"
type_synonym jsstring = "jschar list"

definition js :: "string \<Rightarrow> jsstring" where
  "js s = map of_char s"

text \<open>The class \<^verbatim>\<open>\s\<close> of a JavaScript regular expression; \<^verbatim>\<open>trim()\<close> strips the same set.\<close>

definition isSpace :: "jschar \<Rightarrow> bool" where
  "isSpace c \<longleftrightarrow>
     (0x0009 \<le> c \<and> c \<le> 0x000D) \<or> c = 0x0020 \<or> c = 0x00A0 \<or> c = 0x1680 \<or>
     (0x2000 \<le> c \<and> c \<le> 0x200A) \<or> c = 0x2028 \<or> c = 0x2029 \<or> c = 0x202F \<or>
     c = 0x205F \<or> c = 0x3000 \<or> c = 0xFEFF"

text \<open>The class \<^verbatim>\<open>\d\<close>: the ASCII digits.\<close>

definition isDigit :: "jschar \<Rightarrow> bool" where
  "isDigit c \<longleftrightarrow> 0x30 \<le> c \<and> c \<le> 0x39"

text \<open>The class \<^verbatim>\<open>\w\<close>: ASCII letters, digits and the underscore.\<close>

definition isWord :: "jschar \<Rightarrow> bool" where
  "isWord c \<longleftrightarrow>
     (0x30 \<le> c \<and> c \<le> 0x39) \<or> (0x41 \<le> c \<and> c \<le> 0x5A) \<or>
     (0x61 \<le> c \<and> c \<le> 0x7A) \<or> c = 0x5F"

text \<open>\<^verbatim>\<open>String.prototype.trim\<close>.\<close>

definition trim :: "jsstring \<Rightarrow> jsstring" where
  "trim s = rev (dropWhile isSpace (rev (dropWhile isSpace s)))"

text \<open>\<^verbatim>\<open>String.prototype.startsWith\<close>.\<close>

fun startsWith :: "jsstring \<Rightarrow> jsstring \<Rightarrow> bool" where
  "startsWith s [] = True"
| "startsWith [] (p # ps) = False"
| "startsWith (c # cs) (p # ps) = (c = p \<and> startsWith cs ps)"

text \<open>The operator \<^verbatim>\<open>a || b\<close> on strings: the empty string is the only falsy string.\<close>

definition orElse :: "jsstring \<Rightarrow> jsstring \<Rightarrow> jsstring" where
  "orElse a b = (if a \<noteq> [] then a else b)"

section \<open>Text sanitisation: \<^verbatim>\<open>cleanText\<close>\<close>

text \<open>
  \<^verbatim>\<open>.replace(/<!--[\s\S]*?-->/g, '')\<close>. After an opening \<^verbatim>\<open><!--\<close> the lazy body ends at the
  first \<^verbatim>\<open>-->\<close>; \<open>closeComment\<close> returns what follows it, or \<open>None\<close> when the comment is
  never closed (then the opening is ordinary text).
\<close>

fun closeComment :: "jsstring \<Rightarrow> jsstring option" where
  "closeComment [] = None"
| "closeComment (c # cs) =
     (if startsWith (c # cs) (js ''-->'') then Some (drop 3 (c # cs)) else closeComment cs)"

lemma closeComment_length: "closeComment s = Some r \<Longrightarrow> length r \<le> length s"
  by (induction s) (auto split: if_splits)

function removeComments :: "jsstring \<Rightarrow> jsstring" where
  "removeComments [] = []"
| "removeComments (c # cs) =
     (if startsWith (c # cs) (js ''<!--'') then
        (case closeComment (drop 4 (c # cs)) of
           Some r \<Rightarrow> removeComments r
         | None \<Rightarrow> c # removeComments cs)
      else c # removeComments cs)"
  by pat_completeness auto
termination
proof (relation "measure length")
  show "wf (measure (length :: jsstring \<Rightarrow> nat))" by simp
next
  fix c :: jschar and cs r :: jsstring
  assume "startsWith (c # cs) (js ''<!--'')" and r: "closeComment (drop 4 (c # cs)) = Some r"
  from closeComment_length [OF r] have "length r \<le> length cs - 3" by simp
  then show "(r, c # cs) \<in> measure length" by simp
qed simp_all

text \<open>\<^verbatim>\<open>.replace(/\*+/g, '')\<close>: every asterisk goes.\<close>

definition removeAsterisks :: "jsstring \<Rightarrow> jsstring" where
  "removeAsterisks s = filter (\<lambda>c. c \<noteq> 0x2A) s"

text \<open>\<^verbatim>\<open>.replace(/\s+/g, ' ')\<close>: a maximal run of whitespace becomes one space.\<close>

function collapseSpaces :: "jsstring \<Rightarrow> jsstring" where
  "collapseSpaces [] = []"
| "collapseSpaces (c # cs) =
     (if isSpace c then 0x20 # collapseSpaces (dropWhile isSpace cs)
      else c # collapseSpaces cs)"
  by pat_completeness auto
termination
  by (relation "measure length") (auto simp: less_Suc_eq_le length_dropWhile_le)

text \<open>The characters kept by \<^verbatim>\<open>.replace(/[^\w\s\-.,!?()&$+]/g, '')\<close>.\<close>

definition isAllowed :: "jschar \<Rightarrow> bool" where
  "isAllowed c \<longleftrightarrow>
     isWord c \<or> isSpace c \<or> c = 0x2D \<or> c = 0x2E \<or> c = 0x2C \<or> c = 0x21 \<or> c = 0x3F \<or>
     c = 0x28 \<or> c = 0x29 \<or> c = 0x26 \<or> c = 0x24 \<or> c = 0x2B"

definition cleanText :: "jsstring \<Rightarrow> jsstring" where
  "cleanText text =
     (if text = [] then []
      else trim (filter isAllowed (collapseSpaces (removeAsterisks (removeComments text)))))"

section \<open>URL normalisation: \<^verbatim>\<open>normalizeLinkedInUrl\<close>\<close>

definition normalizeLinkedInUrl :: "jsstring \<Rightarrow> jsstring" where
  "normalizeLinkedInUrl url =
     (if url = [] then []
      else if startsWith url (js ''/'') then js ''https://www.linkedin.com'' @ url
      else url)"


section \<open>The result count: \<^verbatim>\<open>extractNumberFromText\<close>\<close>

text \<open>
  A JavaScript number. \<^verbatim>\<open>parseInt\<close> yields a double, which holds every integer up to \<open>2^53\<close>
  exactly; what it yields beyond that is a rounded value, kept apart as \<open>Inexact\<close>.
\<close>

datatype jsnumber = NaN | Num int | Inexact

definition digitsValue :: "jsstring \<Rightarrow> int" where
  "digitsValue ds = foldl (\<lambda>n c. 10 * n + uint (c - 0x30)) 0 ds"

text \<open>\<^verbatim>\<open>parseInt(s, 10)\<close>: leading whitespace, an optional sign, then the longest run of digits.\<close>

definition parseInt10 :: "jsstring \<Rightarrow> jsnumber" where
  "parseInt10 s =
     (let t = dropWhile isSpace s;
          neg = startsWith t (js ''-'');
          u = (if neg \<or> startsWith t (js ''+'') then drop 1 t else t);
          ds = takeWhile isDigit u
      in if ds = [] then NaN
         else if digitsValue ds \<le> 2 ^ 53
           then Num (if neg then - digitsValue ds else digitsValue ds)
           else Inexact)"

text \<open>
  The pattern \<^verbatim>\<open>/(\d{1,3}(?:,\d{3})*)\+?/\<close>. Once one digit is there no part of it can fail,
  so the greedy choices stand: \<open>leadDigits\<close> is \<^verbatim>\<open>\d{1,3}\<close>, \<open>thousands\<close> is
  \<^verbatim>\<open>(?:,\d{3})*\<close>. The optional \<^verbatim>\<open>+\<close> lies outside the group that is read.
\<close>

definition leadDigits :: "jsstring \<Rightarrow> jsstring" where
  "leadDigits s = takeWhile isDigit (take 3 s)"

fun thousands :: "jsstring \<Rightarrow> jsstring" where
  "thousands (c # d1 # d2 # d3 # r) =
     (if c = 0x2C \<and> isDigit d1 \<and> isDigit d2 \<and> isDigit d3
      then c # d1 # d2 # d3 # thousands r else [])"
| "thousands s = []"

text \<open>Group 1 of a match that starts at the head of \<open>s\<close>.\<close>

definition matchCountAt :: "jsstring \<Rightarrow> jsstring option" where
  "matchCountAt s =
     (let d = leadDigits s
      in if d = [] then None else Some (d @ thousands (drop (length d) s)))"

text \<open>\<^verbatim>\<open>text.match(...)\<close> without the \<^verbatim>\<open>g\<close> flag: the leftmost match.\<close>

fun matchCount :: "jsstring \<Rightarrow> jsstring option" where
  "matchCount [] = None"
| "matchCount (c # cs) =
     (case matchCountAt (c # cs) of Some m \<Rightarrow> Some m | None \<Rightarrow> matchCount cs)"

definition extractNumberFromText :: "jsstring \<Rightarrow> jsnumber option" where
  "extractNumberFromText text =
     (if text = [] then None
      else case matchCount text of
             Some m \<Rightarrow> Some (parseInt10 (filter (\<lambda>c. c \<noteq> 0x2C) m))
           | None \<Rightarrow> None)"

text \<open>
  The strings that group 1 of the pattern can match: one to three digits, then groups of
  a comma and three digits.
\<close>

fun isThousands :: "jsstring \<Rightarrow> bool" where
  "isThousands [] = True"
| "isThousands (c # d1 # d2 # d3 # r) =
     (c = 0x2C \<and> isDigit d1 \<and> isDigit d2 \<and> isDigit d3 \<and> isThousands r)"
| "isThousands s = False"

definition groupedDigits :: "jsstring \<Rightarrow> bool" where
  "groupedDigits m \<longleftrightarrow>
     1 \<le> length (takeWhile isDigit m) \<and> length (takeWhile isDigit m) \<le> 3 \<and>
     isThousands (dropWhile isDigit m)"


section \<open>Documents as cheerio presents them\<close>

text \<open>
  The extraction code never walks the markup itself: it asks cheerio for the elements
  that match a CSS selector and reads their text, attributes and inner markup. An
  element is therefore modelled by what those queries answer: its text content
  (descendants included), its attributes, its inner markup, and for every selector
  the matching descendants in document order. The selector engine and the HTML parser
  belong to cheerio; any answers are allowed.
\<close>

datatype element =
  Element (el_text: jsstring) (el_attr: "string \<Rightarrow> jsstring option")
          (el_html: jsstring) (el_find: "string \<Rightarrow> element list")

text \<open>A cheerio selection is a list of elements; \<open>CheerioAPI\<close> is the function \<^verbatim>\<open>$\<close>.\<close>

type_synonym selection = "element list"
type_synonym CheerioAPI = "string \<Rightarrow> selection"

definition find_sel :: "selection \<Rightarrow> string \<Rightarrow> selection" where
  "find_sel sel q = concat (map (\<lambda>e. el_find e q) sel)"

definition first_sel :: "selection \<Rightarrow> selection" where
  "first_sel sel = take 1 sel"

definition text_sel :: "selection \<Rightarrow> jsstring" where
  "text_sel sel = concat (map el_text sel)"

definition attr_sel :: "selection \<Rightarrow> string \<Rightarrow> jsstring option" where
  "attr_sel sel name = (case sel of [] \<Rightarrow> None | e # _ \<Rightarrow> el_attr e name)"

definition html_sel :: "selection \<Rightarrow> jsstring option" where
  "html_sel sel = (case sel of [] \<Rightarrow> None | e # _ \<Rightarrow> Some (el_html e))"

text \<open>\<^verbatim>\<open>x || ''\<close> for a string that may be undefined.\<close>

definition orEmpty :: "jsstring option \<Rightarrow> jsstring" where
  "orEmpty x = (case x of None \<Rightarrow> [] | Some v \<Rightarrow> v)"

text \<open>\<^verbatim>\<open>a || b\<close> where both may be undefined: undefined and the empty string are falsy.\<close>

definition orElseOpt :: "jsstring option \<Rightarrow> jsstring option \<Rightarrow> jsstring option" where
  "orElseOpt a b = (case a of Some v \<Rightarrow> (if v \<noteq> [] then Some v else b) | None \<Rightarrow> b)"

section \<open>Selector helpers of \<^verbatim>\<open>LinkedInScraper\<close>\<close>

definition JOB_CARD_SELECTORS :: string where
  \<open>JOB_CARD_SELECTORS =
     ''.base-card.main-job-card'' @ '', '' @
     ''.base-card[data-entity-urn*="jobPosting"]'' @ '', '' @
     ''.job-search-card'' @ '', '' @
     ''.base-main-card''\<close>

definition TITLE_SELECTORS :: "string list" where
  "TITLE_SELECTORS =
     [''h3.base-main-card__title'', ''h3.base-search-card__title'', ''.main-job-card__title'']"

definition COMPANY_SELECTORS :: "string list" where
  "COMPANY_SELECTORS =
     [''h4.base-main-card__subtitle a'', ''h4.base-search-card__subtitle a'',
      ''.main-job-card__company'']"

fun extractTextWithSelectors :: "selection \<Rightarrow> string list \<Rightarrow> jsstring" where
  "extractTextWithSelectors el [] = []"
| "extractTextWithSelectors el (selector # selectors) =
     (let text = cleanText (text_sel (first_sel (find_sel el selector)))
      in if text \<noteq> [] then text else extractTextWithSelectors el selectors)"

definition extractTextWithFallback :: "selection \<Rightarrow> string \<Rightarrow> string \<Rightarrow> jsstring" where
  "extractTextWithFallback el primary fallback =
     orElse (cleanText (text_sel (find_sel el primary)))
            (cleanText (text_sel (find_sel el fallback)))"

section \<open>Listing pages: \<^verbatim>\<open>extractJobSearchResults\<close>\<close>

text \<open>
  The fields of \<^verbatim>\<open>JobSearchResult\<close> carry the prefix \<open>r_\<close>, those of \<^verbatim>\<open>SearchResults\<close> the
  prefix \<open>s_\<close>, to keep them apart from the fields of \<^verbatim>\<open>JobData\<close>.
\<close>

record JobSearchResult =
  r_jobTitle :: jsstring
  r_companyName :: jsstring
  r_location :: jsstring
  r_jobUrl :: jsstring
  r_postedTime :: jsstring
  r_jobType :: jsstring
  r_salaryRange :: jsstring
  r_description :: jsstring

record SearchResults =
  s_jobs :: "JobSearchResult list"
  s_totalResults :: "jsnumber option"
  s_extractedAt :: jsstring

text \<open>The title and the company of a listing card, after all fallbacks.\<close>

definition cardTitle :: "element \<Rightarrow> jsstring" where
  \<open>cardTitle jobCard =
     (let jobTitle = extractTextWithSelectors [jobCard] TITLE_SELECTORS
      in if jobTitle = []
         then cleanText (text_sel (first_sel
                (find_sel [jobCard] ''a[data-tracking-control-name*="job"] span'')))
         else jobTitle)\<close>

definition cardCompany :: "element \<Rightarrow> jsstring" where
  \<open>cardCompany jobCard =
     (let companyName = extractTextWithSelectors [jobCard] COMPANY_SELECTORS
      in if companyName = []
         then cleanText (text_sel (find_sel [jobCard] ''a[data-tracking-control-name*="company"]''))
         else companyName)\<close>

text \<open>The body of the first \<^verbatim>\<open>forEach\<close>: \<open>None\<close> is its early \<^verbatim>\<open>return\<close>.\<close>

definition extractCard :: "element \<Rightarrow> JobSearchResult option" where
  \<open>extractCard jobCard =
     (let jobTitle = cardTitle jobCard; companyName = cardCompany jobCard
      in if jobTitle = [] \<or> companyName = [] then None
         else Some \<lparr>
           r_jobTitle = jobTitle,
           r_companyName = companyName,
           r_location = orElse (cleanText (text_sel (first_sel (find_sel [jobCard]
               ''.main-job-card__location, .job-search-card__location, .base-main-card__metadata span''))))
               (js ''Not specified''),
           r_jobUrl = normalizeLinkedInUrl (orEmpty (attr_sel
               (find_sel [jobCard] ''a.base-card__full-link, a[href*="/jobs/view/"]'') ''href'')),
           r_postedTime = cleanText (text_sel (find_sel [jobCard]
               ''time.main-job-card__listdate, time.job-search-card__listdate, time'')),
           r_jobType = cleanText (text_sel (find_sel [jobCard]
               ''.job-posting-benefits__text, .main-job-card__job-type'')),
           r_salaryRange = cleanText (text_sel (find_sel [jobCard]
               ''.main-job-card__salary-info, .job-search-card__salary-info, .salary'')),
           r_description = cleanText (text_sel (find_sel [jobCard]
               ''.job-search-card__snippet, .base-search-card__snippet, .main-job-card__snippet''))
         \<rparr>)\<close>

text \<open>The body of the second \<^verbatim>\<open>forEach\<close>, over the similar-jobs cards.\<close>

definition similarTitle :: "element \<Rightarrow> jsstring" where
  "similarTitle jobCard = cleanText (text_sel (find_sel [jobCard] ''h3.base-main-card__title, .sr-only''))"

definition similarCompany :: "element \<Rightarrow> jsstring" where
  "similarCompany jobCard = cleanText (text_sel (find_sel [jobCard] ''h4.base-main-card__subtitle a''))"

definition extractSimilarCard :: "element \<Rightarrow> JobSearchResult option" where
  "extractSimilarCard jobCard =
     (let jobTitle = similarTitle jobCard; companyName = similarCompany jobCard
      in if jobTitle = [] \<or> companyName = [] then None
         else Some \<lparr>
           r_jobTitle = jobTitle,
           r_companyName = companyName,
           r_location = orElse (cleanText (text_sel (find_sel [jobCard] ''.main-job-card__location'')))
               (js ''Not specified''),
           r_jobUrl = normalizeLinkedInUrl (orEmpty (attr_sel
               (find_sel [jobCard] ''a.base-card__full-link'') ''href'')),
           r_postedTime = cleanText (text_sel (find_sel [jobCard] ''time.main-job-card__listdate'')),
           r_jobType = [],
           r_salaryRange = cleanText (text_sel (find_sel [jobCard] ''.main-job-card__salary-info'')),
           r_description = []
         \<rparr>)"

text \<open>A \<^verbatim>\<open>forEach\<close> that pushes what its body produces, in document order.\<close>

fun pushEach :: "(element \<Rightarrow> JobSearchResult option) \<Rightarrow> element list \<Rightarrow> JobSearchResult list" where
  "pushEach body [] = []"
| "pushEach body (jobCard # cards) =
     (case body jobCard of None \<Rightarrow> pushEach body cards | Some job \<Rightarrow> job # pushEach body cards)"

text \<open>\<open>now\<close> is \<^verbatim>\<open>new Date().toISOString()\<close>.\<close>

definition extractJobSearchResults :: "CheerioAPI \<Rightarrow> jsstring \<Rightarrow> SearchResults" where
  \<open>extractJobSearchResults doc now =
     (let jobs = pushEach extractCard (doc JOB_CARD_SELECTORS);
          totalResultsText = text_sel (doc
            ''.results-context-header__job-count, .jobs-search-results-list__subtitle, .search-results__total'');
          totalResults = (if totalResultsText \<noteq> [] then extractNumberFromText totalResultsText
                          else None);
          jobs' = (if length jobs = 0
                   then pushEach extractSimilarCard
                          (doc ''.base-card[data-tracking-control-name="public_jobs_similar-jobs"]'')
                   else jobs)
      in \<lparr> s_jobs = jobs', s_totalResults = totalResults, s_extractedAt = now \<rparr>)\<close>


section \<open>Detail pages: \<^verbatim>\<open>extractJobDetail\<close>\<close>

record JobData =
  jobTitle :: jsstring
  companyName :: jsstring
  location :: jsstring
  salaryRange :: jsstring
  jobDescription :: jsstring
  postedTime :: "jsstring option"
  applicants :: jsstring
  jobUrl :: "jsstring option"
  companyId :: "jsstring option"
  titleId :: "jsstring option"
  extractedAt :: jsstring

text \<open>
  \<^verbatim>\<open>.replace(/\s*\|\s*LinkedIn$/, '')\<close>: the leftmost place from which the rest of the text
  is whitespace, a bar, whitespace and \<^verbatim>\<open>LinkedIn\<close>; everything from there on is dropped.
\<close>

definition siteSuffixAt :: "jsstring \<Rightarrow> bool" where
  "siteSuffixAt s =
     (case dropWhile isSpace s of
        [] \<Rightarrow> False
      | c # r \<Rightarrow> c = 0x7C \<and> dropWhile isSpace r = js ''LinkedIn'')"

fun stripSiteSuffix :: "jsstring \<Rightarrow> jsstring" where
  "stripSiteSuffix [] = []"
| "stripSiteSuffix (c # cs) = (if siteSuffixAt (c # cs) then [] else c # stripSiteSuffix cs)"

text \<open>\<^verbatim>\<open>s.split(sep)[0]\<close> for a non-empty separator: the text before its first occurrence.\<close>

fun splitHead :: "jsstring \<Rightarrow> jsstring \<Rightarrow> jsstring" where
  "splitHead sep [] = []"
| "splitHead sep (c # cs) = (if startsWith (c # cs) sep then [] else c # splitHead sep cs)"

text \<open>
  \<^verbatim>\<open>content.match(/Posted\s+[\d:]+\s+[AP]M/)?.[0]\<close>. The classes that follow one another are
  disjoint, so each greedy run is the only candidate.
\<close>

definition isTimeChar :: "jschar \<Rightarrow> bool" where
  "isTimeChar c \<longleftrightarrow> isDigit c \<or> c = 0x3A"

definition postedAt :: "jsstring \<Rightarrow> jsstring option" where
  "postedAt s =
     (if startsWith s (js ''Posted'') then
        (let r1 = drop 6 s;
             w1 = takeWhile isSpace r1; r2 = dropWhile isSpace r1;
             d = takeWhile isTimeChar r2; r3 = dropWhile isTimeChar r2;
             w2 = takeWhile isSpace r3; r4 = dropWhile isSpace r3
         in if w1 \<noteq> [] \<and> d \<noteq> [] \<and> w2 \<noteq> [] \<and>
               (startsWith r4 (js ''AM'') \<or> startsWith r4 (js ''PM''))
            then Some (js ''Posted'' @ w1 @ d @ w2 @ take 2 r4)
            else None)
      else None)"

fun matchPosted :: "jsstring \<Rightarrow> jsstring option" where
  "matchPosted [] = None"
| "matchPosted (c # cs) =
     (case postedAt (c # cs) of Some m \<Rightarrow> Some m | None \<Rightarrow> matchPosted cs)"

text \<open>The loop over \<^verbatim>\<open>descSelectors\<close>: the first selector that matches anything decides.\<close>

fun firstDescription :: "CheerioAPI \<Rightarrow> string list \<Rightarrow> jsstring" where
  "firstDescription doc [] = []"
| "firstDescription doc (selector # selectors) =
     (let element = doc selector
      in if length element > 0
         then (case html_sel element of None \<Rightarrow> [] | Some h \<Rightarrow> trim h)
         else firstDescription doc selectors)"

text \<open>The title and the company of a detail page, after all fallbacks.\<close>

definition detailTitle :: "CheerioAPI \<Rightarrow> jsstring" where
  \<open>detailTitle doc =
     orElse (cleanText (text_sel (doc ''.topcard__title'')))
    (orElse (cleanText (text_sel (doc ''h1[data-test-id="job-title"]'')))
            (cleanText (stripSiteSuffix (text_sel (doc ''title'')))))\<close>

definition detailCompany :: "CheerioAPI \<Rightarrow> jsstring" where
  \<open>detailCompany doc =
     orElse (cleanText (text_sel (doc ''.topcard__org-name-link'')))
    (orElse (cleanText (text_sel (doc ''.sub-nav-cta__optional-url'')))
    (orElse (case attr_sel (doc ''meta[property="og:title"]'') ''content'' of
               None \<Rightarrow> []
             | Some content \<Rightarrow> trim (splitHead (js '' hiring '') content))
            []))\<close>

definition detailLocation :: "CheerioAPI \<Rightarrow> jsstring" where
  "detailLocation doc =
     extractTextWithFallback (doc ''body'') ''.topcard__flavor--bullet'' ''.sub-nav-cta__meta-text''"

definition extractJobDetail :: "CheerioAPI \<Rightarrow> jsstring \<Rightarrow> JobData option" where
  \<open>extractJobDetail doc now =
     (let jobTitle = detailTitle doc; companyName = detailCompany doc
      in if jobTitle = [] \<and> companyName = [] then None
         else Some \<lparr>
           jobTitle = orElse jobTitle (js ''Unknown Title''),
           companyName = orElse companyName (js ''Unknown Company''),
           location = orElse (detailLocation doc) (js ''Unknown Location''),
           salaryRange = extractTextWithFallback (doc ''body'') ''.compensation__salary'' ''.salary'',
           jobDescription = firstDescription doc
             [''.show-more-less-html__markup'', ''.description__text'', ''.job-description''],
           postedTime =
             (let t = cleanText (text_sel (doc ''.posted-time-ago__text''))
              in if t \<noteq> [] then Some t
                 else (case attr_sel (doc ''meta[name="description"]'') ''content'' of
                         None \<Rightarrow> None
                       | Some content \<Rightarrow> matchPosted content)),
           applicants = cleanText (text_sel (doc ''.num-applicants__caption'')),
           jobUrl = orElseOpt (attr_sel (doc ''link[rel="canonical"]'') ''href'')
                              (attr_sel (doc ''meta[property="og:url"]'') ''content''),
           companyId = attr_sel (doc ''meta[name="companyId"]'') ''content'',
           titleId = attr_sel (doc ''meta[name="titleId"]'') ''content'',
           extractedAt = now
         \<rparr>)\<close>


section \<open>The fetch cache of \<^verbatim>\<open>src/lib/scrape.ts\<close>\<close>

text \<open>
  A JavaScript \<^verbatim>\<open>Map\<close> keeps its entries in insertion order, and the eviction below
  reads that order, so a map is a list of key-value pairs with distinct keys.
  \<^verbatim>\<open>set\<close> on a present key replaces the value where it stands.
\<close>

fun map_set :: "'k \<Rightarrow> 'v \<Rightarrow> ('k \<times> 'v) list \<Rightarrow> ('k \<times> 'v) list" where
  "map_set k v [] = [(k, v)]"
| "map_set k v (e # m) = (if fst e = k then (k, v) # m else e # map_set k v m)"

definition map_delete :: "'k \<Rightarrow> ('k \<times> 'v) list \<Rightarrow> ('k \<times> 'v) list" where
  "map_delete k m = filter (\<lambda>e. fst e \<noteq> k) m"

record CacheEntry =
  html :: jsstring
  timestamp :: int

type_synonym Cache = "(jsstring \<times> CacheEntry) list"

definition CACHE_DURATION :: int where
  "CACHE_DURATION = 10 * 60 * 1000"

definition MAX_CACHE_SIZE :: nat where
  "MAX_CACHE_SIZE = 50"

definition MIN_REQUEST_INTERVAL :: int where
  "MIN_REQUEST_INTERVAL = 1500"

text \<open>\<open>now\<close> is the value of \<^verbatim>\<open>Date.now()\<close>, in milliseconds.\<close>

definition getCachedResult :: "jsstring \<Rightarrow> int \<Rightarrow> Cache \<Rightarrow> jsstring option" where
  "getCachedResult url now cache =
     (case map_of cache url of
        None \<Rightarrow> None
      | Some cached \<Rightarrow> if now - timestamp cached < CACHE_DURATION then Some (html cached) else None)"

text \<open>
  \<^verbatim>\<open>entries.sort((a, b) => a[1].timestamp - b[1].timestamp)\<close> is a stable ascending sort by
  timestamp, as \<open>sort_key\<close> is. \<^verbatim>\<open>entries[0]\<close> exists: the map has more than fifty entries.
\<close>

definition setCachedResult :: "jsstring \<Rightarrow> jsstring \<Rightarrow> int \<Rightarrow> Cache \<Rightarrow> Cache" where
  "setCachedResult url markup now cache =
     (let cache' = map_set url \<lparr> html = markup, timestamp = now \<rparr> cache
      in if length cache' > MAX_CACHE_SIZE
         then (let entries = sort_key (\<lambda>e. timestamp (snd e)) cache';
                   oldestKey = fst (hd entries)
               in map_delete oldestKey cache')
         else cache')"

text \<open>A sequence of puts on the cache the module starts with, \<^verbatim>\<open>new Map()\<close>.\<close>

fun putAll :: "(jsstring \<times> jsstring \<times> int) list \<Rightarrow> Cache \<Rightarrow> Cache" where
  "putAll [] cache = cache"
| "putAll ((url, markup, now) # puts) cache = putAll puts (setCachedResult url markup now cache)"

section \<open>Rate limiting: \<^verbatim>\<open>waitForRateLimit\<close>\<close>

text \<open>
  \<^verbatim>\<open>waitForRateLimit\<close> up to its \<^verbatim>\<open>await\<close>: the time to wait, or \<open>None\<close> when the caller goes
  on at once. The assignment \<^verbatim>\<open>lastRequestTime = Date.now()\<close> comes after the wait; it is
  part of the steps below.
\<close>

definition waitForRateLimit :: "int \<Rightarrow> int \<Rightarrow> int option" where
  "waitForRateLimit now lastRequestTime =
     (let timeSinceLastRequest = now - lastRequestTime
      in if timeSinceLastRequest < MIN_REQUEST_INTERVAL
         then Some (MIN_REQUEST_INTERVAL - timeSinceLastRequest)
         else None)"

section \<open>Request deduplication: \<^verbatim>\<open>scrape\<close>\<close>

text \<open>
  JavaScript runs each piece of code between two \<^verbatim>\<open>await\<close>s without interruption, so the
  module is a state machine whose steps are those pieces. A promise made by \<^verbatim>\<open>scrape\<close> is
  a number, its position in \<open>requests\<close>, which records where its asynchronous body
  stands:
  \<^item> \<open>AwaitingTimer due\<close>: inside \<^verbatim>\<open>waitForRateLimit\<close>, at the \<^verbatim>\<open>setTimeout\<close> that ends at \<open>due\<close>;
  \<^item> \<open>Fetching\<close>: inside \<^verbatim>\<open>scrapeInternal\<close>, before \<^verbatim>\<open>setCachedResult\<close>;
  \<^item> \<open>Closing h\<close>: \<^verbatim>\<open>scrapeInternal\<close> has cached the markup \<open>h\<close> and is closing the page;
  \<^item> \<open>Settled out\<close>: the promise is resolved or rejected.
\<close>

datatype outcome = Resolved jsstring | Rejected jsstring

datatype phase = AwaitingTimer int | Fetching | Closing jsstring | Settled outcome

record request =
  req_url :: jsstring
  req_phase :: phase

record state =
  cache :: Cache
  lastRequestTime :: int
  pendingRequests :: "(jsstring \<times> nat) list"
  requests :: "request list"

definition initialState :: state where
  "initialState = \<lparr> cache = [], lastRequestTime = 0, pendingRequests = [], requests = [] \<rparr>"

text \<open>
  What a call of \<^verbatim>\<open>scrape\<close> hands back: the cached markup, the promise found in
  \<^verbatim>\<open>pendingRequests\<close>, or the promise it has just made.
\<close>

datatype answer = FromCache jsstring | Existing nat | Created nat

text \<open>
  The synchronous part of \<^verbatim>\<open>scrape(url)\<close>, up to its \<^verbatim>\<open>return\<close>. It reads the clock up to three
  times: in \<^verbatim>\<open>getCachedResult\<close> (\<open>tc\<close>), at the head of \<^verbatim>\<open>waitForRateLimit\<close> (\<open>tr\<close>), and, when
  there is nothing to wait for, at its last line (\<open>tu\<close>). \<^verbatim>\<open>if (cachedResult)\<close> is a truthiness
  test: the empty string fails it as \<^verbatim>\<open>null\<close> does.
\<close>

definition scrape :: "jsstring \<Rightarrow> int \<Rightarrow> int \<Rightarrow> int \<Rightarrow> state \<Rightarrow> answer \<times> state" where
  "scrape url tc tr tu s =
     (let cachedResult = getCachedResult url tc (cache s)
      in if cachedResult \<noteq> None \<and> cachedResult \<noteq> Some [] then (FromCache (the cachedResult), s)
         else (case map_of (pendingRequests s) url of
                 Some existingRequest \<Rightarrow> (Existing existingRequest, s)
               | None \<Rightarrow>
                   (let requestPromise = length (requests s);
                        started = (case waitForRateLimit tr (lastRequestTime s) of
                                     Some waitTime \<Rightarrow> (AwaitingTimer (tr + waitTime), lastRequestTime s)
                                   | None \<Rightarrow> (Fetching, tu))
                    in (Created requestPromise,
                        s\<lparr> lastRequestTime := snd started,
                           requests := requests s @ [\<lparr> req_url = url, req_phase = fst started \<rparr>],
                           pendingRequests := map_set url requestPromise (pendingRequests s) \<rparr>))))"

text \<open>The steps that follow a call. Each is \<open>None\<close> where the code cannot be at that point.\<close>

definition setPhase :: "nat \<Rightarrow> phase \<Rightarrow> state \<Rightarrow> state" where
  "setPhase p ph s = s\<lparr> requests := (requests s)[p := (requests s ! p)\<lparr> req_phase := ph \<rparr>] \<rparr>"

text \<open>
  The timer of \<^verbatim>\<open>waitForRateLimit\<close> ends, not before it is due: \<^verbatim>\<open>lastRequestTime = Date.now()\<close>,
  then \<^verbatim>\<open>scrapeInternal(url)\<close> begins.
\<close>

definition timerFires :: "nat \<Rightarrow> int \<Rightarrow> state \<Rightarrow> state option" where
  "timerFires p now s =
     (if p < length (requests s) then
        (case req_phase (requests s ! p) of
           AwaitingTimer due \<Rightarrow>
             if due \<le> now then Some (setPhase p Fetching (s\<lparr> lastRequestTime := now \<rparr>)) else None
         | _ \<Rightarrow> None)
      else None)"

text \<open>\<^verbatim>\<open>scrapeInternal\<close> has read the page: \<^verbatim>\<open>setCachedResult(url, html)\<close>.\<close>

definition pageFetched :: "nat \<Rightarrow> jsstring \<Rightarrow> int \<Rightarrow> state \<Rightarrow> state option" where
  "pageFetched p markup now s =
     (if p < length (requests s) then
        (case req_phase (requests s ! p) of
           Fetching \<Rightarrow>
             Some (setPhase p (Closing markup)
                    (s\<lparr> cache := setCachedResult (req_url (requests s ! p)) markup now (cache s) \<rparr>))
         | _ \<Rightarrow> None)
      else None)"

text \<open>
  The \<^verbatim>\<open>finally\<close> of \<^verbatim>\<open>scrape\<close>: \<^verbatim>\<open>pendingRequests.delete(url)\<close>, and the promise settles.
  \<^verbatim>\<open>scrapeInternal\<close> fails at any point by throwing; when it returns, it returns the
  markup it has cached.
\<close>

definition settles :: "nat \<Rightarrow> outcome \<Rightarrow> state \<Rightarrow> state option" where
  "settles p out s =
     (if p < length (requests s) then
        (let allowed = (case req_phase (requests s ! p) of
                          AwaitingTimer due \<Rightarrow> False
                        | Fetching \<Rightarrow> (case out of Rejected e \<Rightarrow> True | Resolved h \<Rightarrow> False)
                        | Closing markup \<Rightarrow> (case out of Rejected e \<Rightarrow> True | Resolved h \<Rightarrow> h = markup)
                        | Settled out' \<Rightarrow> False)
         in if allowed
            then Some (setPhase p (Settled out)
                   (s\<lparr> pendingRequests :=
                        map_delete (req_url (requests s ! p)) (pendingRequests s) \<rparr>))
            else None)
      else None)"

text \<open>\<^verbatim>\<open>clearCache\<close> is exported; nothing in the repository calls it.\<close>

definition clearCache :: "state \<Rightarrow> state" where
  "clearCache s = s\<lparr> cache := [], pendingRequests := [] \<rparr>"

datatype event =
  Scrape jsstring int int int
| TimerFires nat int
| PageFetched nat jsstring int
| Settles nat outcome

fun step :: "event \<Rightarrow> state \<Rightarrow> state option" where
  "step (Scrape url tc tr tu) s = Some (snd (scrape url tc tr tu s))"
| "step (TimerFires p now) s = timerFires p now s"
| "step (PageFetched p markup now) s = pageFetched p markup now s"
| "step (Settles p out) s = settles p out s"

fun run :: "event list \<Rightarrow> state \<Rightarrow> state option" where
  "run [] s = Some s"
| "run (e # es) s = (case step e s of None \<Rightarrow> None | Some s' \<Rightarrow> run es s')"

text \<open>A request is in flight while its fetch has neither produced markup nor failed.\<close>

definition inFlight :: "state \<Rightarrow> nat \<Rightarrow> bool" where
  "inFlight s p \<longleftrightarrow>
     p < length (requests s) \<and>
     (case req_phase (requests s ! p) of
        AwaitingTimer due \<Rightarrow> True | Fetching \<Rightarrow> True | Closing h \<Rightarrow> False | Settled out \<Rightarrow> False)"

text \<open>
  The number of requests made so far for a URL. Each request enters \<^verbatim>\<open>scrapeInternal\<close>
  once, and \<^verbatim>\<open>scrapeInternal\<close> navigates once.
\<close>

definition requestsFor :: "state \<Rightarrow> jsstring \<Rightarrow> nat" where
  "requestsFor s url = length (filter (\<lambda>u. u = url) (map req_url (requests s)))"

text \<open>What a caller of \<^verbatim>\<open>scrape\<close> has received in state \<open>s\<close>, if anything yet.\<close>

definition received :: "state \<Rightarrow> answer \<Rightarrow> outcome option" where
  "received s a =
     (case a of
        FromCache h \<Rightarrow> Some (Resolved h)
      | Existing p \<Rightarrow> (case req_phase (requests s ! p) of Settled out \<Rightarrow> Some out | _ \<Rightarrow> None)
      | Created p \<Rightarrow> (case req_phase (requests s ! p) of Settled out \<Rightarrow> Some out | _ \<Rightarrow> None))"


section \<open>Notions used to state the properties\<close>

text \<open>
  What every result of \<open>cleanText\<close> looks like: allowed characters only, no whitespace
  but the plain space, none at either end.
\<close>

definition sanitised :: "jsstring \<Rightarrow> bool" where
  "sanitised s \<longleftrightarrow> (\<forall>c\<in>set s. isAllowed c \<and> (isSpace c \<longrightarrow> c = 0x20)) \<and>
     (s = [] \<or> (\<not> isSpace (hd s) \<and> \<not> isSpace (last s)))"

text \<open>Two whitespace characters side by side.\<close>

fun adjacentSpaces :: "jsstring \<Rightarrow> bool" where
  "adjacentSpaces (a # b # s) = ((isSpace a \<and> isSpace b) \<or> adjacentSpaces (b # s))"
| "adjacentSpaces s = False"


text \<open>
  The count in the specification's words: the first run of digits with thousands
  separators is, from the first digit of the text on, the longest stretch of digits and
  commas; the count is that run without its commas, read as an integer, and it is absent
  when the text has no digit.
\<close>

definition specFirstRun :: "jsstring \<Rightarrow> jsstring" where
  "specFirstRun t = takeWhile (\<lambda>c. isDigit c \<or> c = 0x2C) (dropWhile (\<lambda>c. \<not> isDigit c) t)"

definition specCount :: "jsstring \<Rightarrow> jsnumber option" where
  "specCount t =
     (if specFirstRun t = [] then None
      else Some (parseInt10 (filter (\<lambda>c. c \<noteq> 0x2C) (specFirstRun t))))"

text \<open>The number of pages that a sequence of steps puts into the cache.\<close>

fun pagesCached :: "event list \<Rightarrow> nat" where
  "pagesCached [] = 0"
| "pagesCached (PageFetched p markup now # es) = Suc (pagesCached es)"
| "pagesCached (e # es) = pagesCached es"

text \<open>No call of \<^verbatim>\<open>scrape\<close> among the steps reads, for its cache lookup, a clock later than \<open>tc\<close>.\<close>

fun callsBy :: "int \<Rightarrow> event list \<Rightarrow> bool" where
  "callsBy tc [] = True"
| "callsBy tc (Scrape url tc' tr tu # es) = (tc' \<le> tc \<and> callsBy tc es)"
| "callsBy tc (e # es) = callsBy tc es"


section \<open>Example documents\<close>

text \<open>Documents and elements on which the properties below are instantiated.\<close>

definition textElement :: "jsstring \<Rightarrow> element" where
  "textElement t = Element t (\<lambda>name. None) t (\<lambda>q. [])"

definition metaElement :: "jsstring \<Rightarrow> element" where
  "metaElement c = Element [] (\<lambda>name. if name = ''content'' then Some c else None) [] (\<lambda>q. [])"

definition emptyDocument :: CheerioAPI where
  "emptyDocument q = []"

definition companyOnlyDocument :: CheerioAPI where
  \<open>companyOnlyDocument q =
     (if q = ''meta[property="og:title"]''
        then [metaElement (js ''Acme Corp hiring Backend Engineer in Berlin'')]
      else if q = ''title'' then [textElement (js '' | LinkedIn'')]
      else [])\<close>

text \<open>
  A listing card counts as valid when its title and its company are both non-empty after
  all fallbacks; likewise a similar-jobs card, by the selectors of the second pass.
\<close>

definition validCard :: "element \<Rightarrow> bool" where
  "validCard jobCard \<longleftrightarrow> cardTitle jobCard \<noteq> [] \<and> cardCompany jobCard \<noteq> []"

definition validSimilarCard :: "element \<Rightarrow> bool" where
  "validSimilarCard jobCard \<longleftrightarrow> similarTitle jobCard \<noteq> [] \<and> similarCompany jobCard \<noteq> []"

text \<open>
  The listing of the specification's example: card A with title, company and a relative
  link, card B with a title and no company.
\<close>

definition linkElement :: "jsstring \<Rightarrow> element" where
  "linkElement href =
     Element [] (\<lambda>name. if name = ''href'' then Some href else None) [] (\<lambda>q. [])"

definition cardA :: element where
  \<open>cardA = Element (js ''Backend Engineer Acme Corp'') (\<lambda>name. None) []
     (\<lambda>q. if q = ''h3.base-main-card__title'' then [textElement (js ''Backend Engineer'')]
           else if q = ''h4.base-main-card__subtitle a'' then [textElement (js ''Acme Corp'')]
           else if q = ''a.base-card__full-link, a[href*="/jobs/view/"]''
             then [linkElement (js ''/jobs/view/123'')]
           else [])\<close>

definition cardB :: element where
  "cardB = Element (js ''Data Engineer'') (\<lambda>name. None) []
     (\<lambda>q. if q = ''h3.base-main-card__title'' then [textElement (js ''Data Engineer'')] else [])"

definition listingDocument :: CheerioAPI where
  "listingDocument q = (if q = JOB_CARD_SELECTORS then [cardA, cardB] else [])"

text \<open>A page without listing cards and with one card in its similar-jobs section.\<close>

definition similarCard :: element where
  "similarCard = Element (js ''Site Engineer Initech'') (\<lambda>name. None) []
     (\<lambda>q. if q = ''h3.base-main-card__title, .sr-only'' then [textElement (js ''Site Engineer'')]
           else if q = ''h4.base-main-card__subtitle a'' then [textElement (js ''Initech'')]
           else [])"

definition similarOnlyDocument :: CheerioAPI where
  \<open>similarOnlyDocument q =
     (if q = ''.base-card[data-tracking-control-name="public_jobs_similar-jobs"]''
      then [similarCard] else [])\<close>

definition emptyTextsDocument :: CheerioAPI where
  \<open>emptyTextsDocument q =
     (if q = ''.topcard__title'' then [textElement (js ''***'')]
      else if q = ''title'' then [textElement (js '' | LinkedIn'')]
      else if q = ''meta[property="og:title"]'' then [metaElement (js '' hiring Engineer'')]
      else [])\<close>

definition titleOnlyDocument :: CheerioAPI where
  \<open>titleOnlyDocument q =
     (if q = ''title'' then [textElement (js ''Engineer | LinkedIn'')] else [])\<close>

text \<open>A listing page that holds nothing but the header element with the text \<open>t\<close>.\<close>

definition headerDocument :: "jsstring \<Rightarrow> CheerioAPI" where
  \<open>headerDocument t q =
     (if q = ''.results-context-header__job-count, .jobs-search-results-list__subtitle, .search-results__total''
      then [textElement t] else [])\<close>


section \<open>Example caches\<close>

text \<open>Fifty puts of fifty URLs, all at the same millisecond.\<close>

definition fiftyPuts :: "(jsstring \<times> jsstring \<times> int) list" where
  "fiftyPuts = map (\<lambda>i. ([of_nat i], js ''<html>'', 7)) [0..<50]"

section \<open>Example runs\<close>

text \<open>
  The steps of one complete fetch, number \<open>i\<close> since the module was loaded, of the URL
  whose only character has code \<open>i\<close>: the call, the page read, the promise resolved.
  Fetch \<open>i\<close> happens \<open>2 i\<close> seconds after the first, so none waits for the rate limiter.
\<close>

definition fetchEvents :: "nat \<Rightarrow> event list" where
  "fetchEvents i =
     [Scrape [of_nat i] (10000 + 2000 * int i) (10000 + 2000 * int i) (10000 + 2000 * int i),
      PageFetched i (js ''<html>'') (10000 + 2000 * int i),
      Settles i (Resolved (js ''<html>''))]"

definition fiftyOneFetches :: "event list" where
  "fiftyOneFetches = concat (map fetchEvents [0..<51])"

text \<open>Three calls for three URLs within one fifth of a second, and the two timers they set.\<close>

definition threeCalls :: "event list" where
  "threeCalls =
     [Scrape (js ''a'') 10000 10000 10000,
      Scrape (js ''b'') 10100 10100 10100,
      Scrape (js ''c'') 10200 10200 10200]"

definition twoTimers :: "event list" where
  "twoTimers = [TimerFires 1 11500, TimerFires 2 11500]"

text \<open>
  Ten complete fetches and the call for an eleventh URL; then, after the page of that
  request is cached, its promise resolved and forty-nine further complete fetches.
\<close>

definition beforeFetch :: "event list" where
  "beforeFetch = concat (map fetchEvents [0..<10]) @ [Scrape [10] 30000 30000 30000]"

definition afterFetch :: "event list" where
  "afterFetch = Settles 10 (Resolved (js ''<html>'')) # concat (map fetchEvents [11..<60])"


section \<open>Invariants of the request state machine\<close>

text \<open>
  The promise of every unsettled request is the one that \<^verbatim>\<open>pendingRequests\<close> holds for its
  URL; so no two unsettled requests are for the same URL.
\<close>

definition unsettled :: "state \<Rightarrow> nat \<Rightarrow> bool" where
  "unsettled s p \<longleftrightarrow>
     p < length (requests s) \<and>
     (case req_phase (requests s ! p) of Settled out \<Rightarrow> False | _ \<Rightarrow> True)"

definition pendingInvariant :: "state \<Rightarrow> bool" where
  "pendingInvariant s \<longleftrightarrow>
     (\<forall>p. unsettled s p \<longrightarrow> map_of (pendingRequests s) (req_url (requests s ! p)) = Some p)"

text \<open>
  What holds from the call that made request \<open>p\<close> for \<open>url\<close> for as long as \<open>p\<close> is not
  settled: the cache's entry for \<open>url\<close> is the one of before the call (\<open>e0\<close>), or none,
  or the markup that \<open>p\<close> itself has cached; and no further request for \<open>url\<close> has been
  made (there are \<open>n\<close>).
\<close>

definition sharing :: "jsstring \<Rightarrow> nat \<Rightarrow> CacheEntry option \<Rightarrow> nat \<Rightarrow> state \<Rightarrow> bool" where
  "sharing url p e0 n s \<longleftrightarrow>
     pendingInvariant s \<and> p < length (requests s) \<and> req_url (requests s ! p) = url \<and>
     (map_of (cache s) url = None \<or> map_of (cache s) url = e0 \<or>
      (\<exists>h t. req_phase (requests s ! p) = Closing h \<and>
             map_of (cache s) url = Some \<lparr> html = h, timestamp = t \<rparr>)) \<and>
     requestsFor s url = n"

text \<open>The state right after a first call for the URL \<^verbatim>\<open>b\<close>.\<close>

definition afterFirstCall :: state where
  "afterFirstCall = snd (scrape (js ''b'') 10000 10000 10000 initialState)"

text \<open>
  The cache holds the entry \<open>e\<close> for \<open>url\<close>, and at most \<open>n\<close> entries stand behind it in
  the order of eviction: entries before it in the map with a larger timestamp, entries
  after it with a timestamp not smaller.
\<close>

definition entryKept :: "jsstring \<Rightarrow> CacheEntry \<Rightarrow> nat \<Rightarrow> Cache \<Rightarrow> bool" where
  "entryKept url e n c \<longleftrightarrow>
     distinct (map fst c) \<and>
     (\<exists>us vs. c = us @ (url, e) # vs \<and>
        length (filter (\<lambda>x. timestamp e < timestamp (snd x)) us) +
        length (filter (\<lambda>x. timestamp e \<le> timestamp (snd x)) vs) \<le> n)"

text \<open>The same of a state in which no request for \<open>url\<close> is in flight.\<close>

definition cachedFor :: "jsstring \<Rightarrow> CacheEntry \<Rightarrow> nat \<Rightarrow> state \<Rightarrow> bool" where
  "cachedFor url e n s \<longleftrightarrow>
     entryKept url e n (cache s) \<and> (\<forall>q. inFlight s q \<longrightarrow> req_url (requests s ! q) \<noteq> url)"


section \<open>Properties of \<open>cleanText\<close>\<close>

lemma startsWith_hd: "startsWith s (p # ps) \<Longrightarrow> p \<in> set s"
  by (cases s) auto

lemma removeComments_id: "0x3C \<notin> set s \<Longrightarrow> removeComments s = s"
proof (induction s)
  case Nil
  then show ?case by simp
next
  case (Cons c cs)
  have "\<not> startsWith (c # cs) (js ''<!--'')"
    using Cons.prems by (auto simp: js_def)
  with Cons show ?case by simp
qed

lemma set_trim: "set (trim s) \<subseteq> set s"
  by (auto simp: trim_def dest!: set_dropWhileD)

lemma trim_id: "s = [] \<or> (\<not> isSpace (hd s) \<and> \<not> isSpace (last s)) \<Longrightarrow> trim s = s"
proof (cases "s = []")
  case True
  then show ?thesis by (simp add: trim_def)
next
  case False
  assume "s = [] \<or> (\<not> isSpace (hd s) \<and> \<not> isSpace (last s))"
  with False have h: "\<not> isSpace (hd s)" and l: "\<not> isSpace (last s)" by auto
  from h False have 1: "dropWhile isSpace s = s" by (cases s) auto
  from l False have "\<not> isSpace (hd (rev s))" by (simp add: hd_rev)
  with False have "dropWhile isSpace (rev s) = rev s" by (cases "rev s") auto
  with 1 show ?thesis by (simp add: trim_def)
qed

lemma trim_ends: "trim s = [] \<or> (\<not> isSpace (hd (trim s)) \<and> \<not> isSpace (last (trim s)))"
proof (cases "trim s = []")
  case True
  then show ?thesis by simp
next
  case False
  let ?d = "dropWhile isSpace s"
  let ?r = "dropWhile isSpace (rev ?d)"
  from False have r: "?r \<noteq> []" by (simp add: trim_def)
  have d: "?d \<noteq> []"
  proof
    assume "?d = []"
    then have "?r = []" by (simp only: rev.simps dropWhile.simps)
    with r show False by contradiction
  qed
  have l: "\<not> isSpace (hd ?r)" using r hd_dropWhile by blast
  have "hd (rev ?r) = last ?r" by (simp add: hd_rev)
  also have "\<dots> = last (rev ?d)" using r
    by (metis last_appendR takeWhile_dropWhile_id)
  also have "\<dots> = hd ?d" using d by (simp add: last_rev)
  finally have h: "hd (trim s) = hd ?d" by (simp add: trim_def)
  have "\<not> isSpace (hd ?d)" using d hd_dropWhile by blast
  with h l r show ?thesis by (simp add: trim_def last_rev)
qed

lemma collapseSpaces_set: "set (collapseSpaces s) \<subseteq> insert 0x20 (set s)"
proof (induction s rule: collapseSpaces.induct)
  case 1
  then show ?case by simp
next
  case (2 c cs)
  show ?case
  proof (cases "isSpace c")
    case True
    with 2 have "set (collapseSpaces (dropWhile isSpace cs)) \<subseteq> insert 0x20 (set (dropWhile isSpace cs))" by simp
    moreover have "set (dropWhile isSpace cs) \<subseteq> set cs" using set_dropWhileD by fastforce
    ultimately show ?thesis using True by auto
  next
    case False
    with 2 show ?thesis by auto
  qed
qed

lemma collapseSpaces_spaces: "c \<in> set (collapseSpaces s) \<Longrightarrow> isSpace c \<Longrightarrow> c = 0x20"
proof (induction s rule: collapseSpaces.induct)
  case 1
  then show ?case by simp
next
  case (2 d ds)
  show ?case
  proof (cases "isSpace d")
    case True
    with 2(3) have "c = 0x20 \<or> c \<in> set (collapseSpaces (dropWhile isSpace ds))" by simp
    with 2(1) [OF True] 2(4) show ?thesis by blast
  next
    case False
    with 2(3) have "c = d \<or> c \<in> set (collapseSpaces ds)" by simp
    with 2(2) [OF False] 2(4) False show ?thesis by blast
  qed
qed

lemma collapseSpaces_hd:
  "s \<noteq> [] \<Longrightarrow> \<not> isSpace (hd s) \<Longrightarrow> collapseSpaces s \<noteq> [] \<and> hd (collapseSpaces s) = hd s"
  by (cases s) auto

lemma collapseSpaces_last:
  "s \<noteq> [] \<Longrightarrow> \<not> isSpace (last s) \<Longrightarrow> collapseSpaces s \<noteq> [] \<and> last (collapseSpaces s) = last s"
proof (induction s rule: collapseSpaces.induct)
  case 1
  then show ?case by simp
next
  case (2 c cs)
  show ?case
  proof (cases "isSpace c")
    case True
    let ?d = "dropWhile isSpace cs"
    from True 2(3,4) have cs: "cs \<noteq> []" by auto
    with 2(4) have lcs: "\<not> isSpace (last cs)" by simp
    have d: "?d \<noteq> []"
    proof
      assume "?d = []"
      then have "\<forall>x\<in>set cs. isSpace x" by (simp add: dropWhile_eq_Nil_conv)
      with cs lcs show False using last_in_set by blast
    qed
    have ld: "last ?d = last cs" using d
      by (metis last_appendR takeWhile_dropWhile_id)
    from 2(1) [OF True d] ld lcs have "collapseSpaces ?d \<noteq> [] \<and> last (collapseSpaces ?d) = last cs"
      by simp
    with True cs show ?thesis by simp
  next
    case False
    show ?thesis
    proof (cases "cs = []")
      case True
      with False show ?thesis by simp
    next
      case ne: False
      with 2(4) have "\<not> isSpace (last cs)" by simp
      from 2(2) [OF False ne this] ne False show ?thesis by simp
    qed
  qed
qed

lemma dropWhile_collapseSpaces:
  "s = [] \<or> \<not> isSpace (hd s) \<Longrightarrow> dropWhile isSpace (collapseSpaces s) = collapseSpaces s"
  by (cases s) auto

lemma collapseSpaces_idem: "collapseSpaces (collapseSpaces s) = collapseSpaces s"
proof (induction s rule: collapseSpaces.induct)
  case 1
  then show ?case by simp
next
  case (2 c cs)
  show ?case
  proof (cases "isSpace c")
    case True
    let ?d = "dropWhile isSpace cs"
    have "?d = [] \<or> \<not> isSpace (hd ?d)" using hd_dropWhile by blast
    then have "dropWhile isSpace (collapseSpaces ?d) = collapseSpaces ?d"
      by (rule dropWhile_collapseSpaces)
    moreover have "isSpace 0x20" by (simp add: isSpace_def)
    ultimately show ?thesis using True 2(1) by simp
  next
    case False
    with 2(2) show ?thesis by simp
  qed
qed

lemma cleanText_sanitised: "sanitised (cleanText x)"
proof -
  let ?f = "filter isAllowed (collapseSpaces (removeAsterisks (removeComments x)))"
  have a: "\<forall>c\<in>set (trim ?f). isAllowed c \<and> (isSpace c \<longrightarrow> c = 0x20)"
  proof
    fix c assume "c \<in> set (trim ?f)"
    then have c: "c \<in> set ?f" using set_trim by blast
    then have "c \<in> set (collapseSpaces (removeAsterisks (removeComments x)))" by simp
    then have "isSpace c \<longrightarrow> c = 0x20" using collapseSpaces_spaces by blast
    with c show "isAllowed c \<and> (isSpace c \<longrightarrow> c = 0x20)" by simp
  qed
  show ?thesis
  proof (cases "x = []")
    case True
    then show ?thesis by (simp add: sanitised_def cleanText_def)
  next
    case False
    then have "cleanText x = trim ?f" by (simp add: cleanText_def)
    with a trim_ends [of ?f] show ?thesis by (simp only: sanitised_def)
  qed
qed

lemma cleanText_of_sanitised:
  assumes "sanitised y"
  shows "cleanText y = collapseSpaces y"
proof (cases "y = []")
  case True
  then show ?thesis by (simp add: cleanText_def)
next
  case False
  from assms have al: "\<forall>c\<in>set y. isAllowed c" and ends: "\<not> isSpace (hd y)" "\<not> isSpace (last y)"
    using False by (auto simp: sanitised_def)
  have "\<not> isAllowed 0x3C" "\<not> isAllowed 0x2A" by (simp_all add: isAllowed_def isWord_def isSpace_def)
  with al have nolt: "0x3C \<notin> set y" and noast: "0x2A \<notin> set y" by auto
  have rc: "removeComments y = y" using nolt by (rule removeComments_id)
  have ra: "removeAsterisks y = y" using noast by (auto simp: removeAsterisks_def filter_id_conv)
  have "isAllowed 0x20" by (simp add: isAllowed_def isSpace_def)
  with al collapseSpaces_set [of y] have "\<forall>c\<in>set (collapseSpaces y). isAllowed c" by auto
  then have fl: "filter isAllowed (collapseSpaces y) = collapseSpaces y" by (simp add: filter_id_conv)
  from collapseSpaces_hd [OF False ends(1)] collapseSpaces_last [OF False ends(2)] ends
  have "trim (collapseSpaces y) = collapseSpaces y" by (intro trim_id) simp
  with rc ra fl False show ?thesis by (simp add: cleanText_def)
qed

lemma collapseSpaces_sanitised: "sanitised y \<Longrightarrow> sanitised (collapseSpaces y)"
proof -
  assume s: "sanitised y"
  have "isAllowed 0x20" by (simp add: isAllowed_def isSpace_def)
  with s collapseSpaces_set [of y] have a: "\<forall>c\<in>set (collapseSpaces y). isAllowed c"
    by (auto simp: sanitised_def)
  have b: "\<forall>c\<in>set (collapseSpaces y). isSpace c \<longrightarrow> c = 0x20" using collapseSpaces_spaces by blast
  show ?thesis
  proof (cases "y = []")
    case True
    then show ?thesis by (simp add: sanitised_def)
  next
    case False
    with s have "\<not> isSpace (hd y)" "\<not> isSpace (last y)" by (auto simp: sanitised_def)
    with collapseSpaces_hd [OF False] collapseSpaces_last [OF False] a b
    show ?thesis by (simp add: sanitised_def)
  qed
qed

lemma collapseSpaces_length: "length (collapseSpaces s) \<le> length s"
proof (induction s rule: collapseSpaces.induct)
  case 1
  then show ?case by simp
next
  case (2 c cs)
  have "length (dropWhile isSpace cs) \<le> length cs" by (rule length_dropWhile_le)
  with 2 show ?case by (cases "isSpace c") auto
qed

lemma collapseSpaces_fixed:
  "\<forall>c\<in>set s. isSpace c \<longrightarrow> c = 0x20 \<Longrightarrow> collapseSpaces s = s \<longleftrightarrow> \<not> adjacentSpaces s"
proof (induction s rule: adjacentSpaces.induct)
  case (1 a b s)
  have sp: "\<forall>c\<in>set (b # s). isSpace c \<longrightarrow> c = 0x20" using 1(2) by simp
  note IH = 1(1) [OF sp]
  show ?case
  proof (cases "isSpace a")
    case True
    then have a: "a = 0x20" using 1(2) by simp
    show ?thesis
    proof (cases "isSpace b")
      case b: True
      have eq: "collapseSpaces (a # b # s) = 0x20 # collapseSpaces (dropWhile isSpace s)"
        using True b by simp
      have "length (collapseSpaces (dropWhile isSpace s)) \<le> length (dropWhile isSpace s)"
        by (rule collapseSpaces_length)
      also have "\<dots> \<le> length s" by (rule length_dropWhile_le)
      finally have "length (collapseSpaces (dropWhile isSpace s)) \<noteq> length (b # s)" by simp
      then have "collapseSpaces (dropWhile isSpace s) \<noteq> b # s" by metis
      then have "collapseSpaces (a # b # s) \<noteq> a # b # s" unfolding eq by simp
      moreover have "adjacentSpaces (a # b # s)" using True b by simp
      ultimately show ?thesis by blast
    next
      case False
      have eq: "collapseSpaces (a # b # s) = 0x20 # collapseSpaces (b # s)"
        using True False by simp
      have "adjacentSpaces (a # b # s) = adjacentSpaces (b # s)" using False by simp
      with IH a show ?thesis unfolding eq by (simp del: collapseSpaces.simps adjacentSpaces.simps)
    qed
  next
    case False
    have eq: "collapseSpaces (a # b # s) = a # collapseSpaces (b # s)"
      using False by simp
    have "adjacentSpaces (a # b # s) = adjacentSpaces (b # s)" using False by simp
    with IH show ?thesis unfolding eq by (simp del: collapseSpaces.simps adjacentSpaces.simps)
  qed
qed simp_all


text \<open>
  C2, as stated: \<open>cleanText\<close> is idempotent. It is not: a stripped character that stood
  between two spaces leaves them side by side, and a second pass joins them.
  \<^verbatim>\<open>cleanText("a # b")\<close> is \<^verbatim>\<open>"a  b"\<close>, and \<^verbatim>\<open>cleanText("a  b")\<close> is \<^verbatim>\<open>"a b"\<close>.
\<close>

theorem cleanText_not_idempotent:
  "cleanText (cleanText (js ''a # b'')) \<noteq> cleanText (js ''a # b'')"
  by code_simp

text \<open>
  C2, amended: a second application of \<open>cleanText\<close> reaches a fixed point, for every
  input; and the first application already is one exactly when its result has no two
  spaces side by side.
\<close>

theorem cleanText_fixed_after_two:
  "cleanText (cleanText (cleanText x)) = cleanText (cleanText x) \<and>
   (cleanText (cleanText x) = cleanText x \<longleftrightarrow> \<not> adjacentSpaces (cleanText x))"
proof -
  have s: "sanitised (cleanText x)" by (rule cleanText_sanitised)
  have 1: "cleanText (cleanText x) = collapseSpaces (cleanText x)"
    using s by (rule cleanText_of_sanitised)
  have "sanitised (collapseSpaces (cleanText x))"
    using s by (rule collapseSpaces_sanitised)
  then have "cleanText (collapseSpaces (cleanText x)) = collapseSpaces (collapseSpaces (cleanText x))"
    by (rule cleanText_of_sanitised)
  then have 2: "cleanText (cleanText (cleanText x)) = cleanText (cleanText x)"
    by (simp only: 1 collapseSpaces_idem)
  from s have "\<forall>c\<in>set (cleanText x). isSpace c \<longrightarrow> c = 0x20"
    by (simp only: sanitised_def) blast
  then have "collapseSpaces (cleanText x) = cleanText x \<longleftrightarrow> \<not> adjacentSpaces (cleanText x)"
    by (rule collapseSpaces_fixed)
  with 1 2 show ?thesis by (simp only:) 
qed

text \<open>The amended C2 at two inputs, one on each side of the equivalence.\<close>

theorem cleanText_fixed_after_two_witness:
  "cleanText (cleanText (js ''Sr. Engineer (C++)'')) = cleanText (js ''Sr. Engineer (C++)'') \<and>
   adjacentSpaces (cleanText (js ''a # b'')) \<and>
   cleanText (cleanText (cleanText (js ''a # b''))) = js ''a b''"
proof -
  have 1: "\<not> adjacentSpaces (cleanText (js ''Sr. Engineer (C++)''))" by code_simp
  have 2: "cleanText (cleanText (js ''a # b'')) \<noteq> cleanText (js ''a # b'')" by code_simp
  have 3: "cleanText (cleanText (js ''a # b'')) = js ''a b''" by code_simp
  from cleanText_fixed_after_two [of "js ''Sr. Engineer (C++)''"] 1
  have a: "cleanText (cleanText (js ''Sr. Engineer (C++)'')) = cleanText (js ''Sr. Engineer (C++)'')"
    by blast
  from cleanText_fixed_after_two [of "js ''a # b''"] 2
  have b: "adjacentSpaces (cleanText (js ''a # b''))"
    and c: "cleanText (cleanText (cleanText (js ''a # b''))) = cleanText (cleanText (js ''a # b''))"
    by blast+
  from a b c 3 show ?thesis by (simp only:)
qed

section \<open>Properties of \<open>normalizeLinkedInUrl\<close>\<close>

text \<open>
  C9: a URL that starts with a slash gets the origin \<^verbatim>\<open>https://www.linkedin.com\<close> in front,
  any other non-empty URL comes back unchanged, and the empty URL yields the empty URL.
\<close>

theorem normalizeLinkedInUrl_cases:
  "normalizeLinkedInUrl [] = [] \<and>
   (startsWith url (js ''/'') \<longrightarrow>
      normalizeLinkedInUrl url = js ''https://www.linkedin.com'' @ url) \<and>
   (url \<noteq> [] \<and> \<not> startsWith url (js ''/'') \<longrightarrow> normalizeLinkedInUrl url = url)"
  by (cases url) (simp_all add: normalizeLinkedInUrl_def js_def)

text \<open>C9 at a relative and at an absolute URL.\<close>

theorem normalizeLinkedInUrl_cases_witness:
  "startsWith (js ''/jobs/view/123'') (js ''/'') \<and>
   normalizeLinkedInUrl (js ''/jobs/view/123'') = js ''https://www.linkedin.com/jobs/view/123'' \<and>
   js ''https://example.org/a'' \<noteq> [] \<and> \<not> startsWith (js ''https://example.org/a'') (js ''/'') \<and>
   normalizeLinkedInUrl (js ''https://example.org/a'') = js ''https://example.org/a''"
proof -
  have 1: "startsWith (js ''/jobs/view/123'') (js ''/'')" by code_simp
  have 2: "js ''https://example.org/a'' \<noteq> [] \<and> \<not> startsWith (js ''https://example.org/a'') (js ''/'')"
    by code_simp
  have 3: "js ''https://www.linkedin.com'' @ js ''/jobs/view/123'' = js ''https://www.linkedin.com/jobs/view/123''"
    by (simp add: js_def)
  from normalizeLinkedInUrl_cases [of "js ''/jobs/view/123''"] 1 3
  have a: "normalizeLinkedInUrl (js ''/jobs/view/123'') = js ''https://www.linkedin.com/jobs/view/123''"
    by (simp only:)
  from normalizeLinkedInUrl_cases [of "js ''https://example.org/a''"] 2
  have b: "normalizeLinkedInUrl (js ''https://example.org/a'') = js ''https://example.org/a''"
    by blast
  from 1 2 a b show ?thesis by blast
qed


section \<open>Properties of \<open>extractNumberFromText\<close>\<close>

lemma thousands_prefix: "prefix (thousands r) r"
  by (induction r rule: thousands.induct) simp_all

lemma isThousands_thousands: "isThousands (thousands r)"
  by (induction r rule: thousands.induct) simp_all

lemma thousands_longest: "isThousands g \<Longrightarrow> prefix g r \<Longrightarrow> prefix g (thousands r)"
proof (induction g arbitrary: r rule: isThousands.induct)
  case 1
  then show ?case by simp
next
  case (2 c d1 d2 d3 g)
  from 2(3) obtain r' where r: "r = c # d1 # d2 # d3 # r'" and p: "prefix g r'"
    by (auto simp: prefix_def)
  from 2(2) have ok: "c = 0x2C \<and> isDigit d1 \<and> isDigit d2 \<and> isDigit d3" and g: "isThousands g"
    by simp_all
  from 2(1) [OF g p] ok show ?case unfolding r by simp
qed simp_all

lemma thousands_hd: "thousands r = [] \<or> hd (thousands r) = 0x2C"
  by (cases r rule: thousands.cases) simp_all

lemma isThousands_hd: "isThousands g \<Longrightarrow> g = [] \<or> hd g = 0x2C"
  by (cases g rule: isThousands.cases) simp_all

lemma comma_no_digit: "\<not> isDigit 0x2C"
  by (simp add: isDigit_def)

lemma leadDigits_props:
  "prefix (leadDigits t) t \<and> length (leadDigits t) \<le> 3 \<and> (\<forall>c\<in>set (leadDigits t). isDigit c)"
proof -
  have "prefix (takeWhile isDigit (take 3 t)) (take 3 t)"
    by (metis prefixI takeWhile_dropWhile_id)
  moreover have "prefix (take 3 t) t" by (rule take_is_prefix)
  ultimately have "prefix (leadDigits t) t" unfolding leadDigits_def by (rule prefix_order.trans)
  moreover have "length (takeWhile isDigit (take 3 t)) \<le> length (take 3 t)"
    by (rule length_takeWhile_le)
  then have "length (leadDigits t) \<le> 3" unfolding leadDigits_def by simp
  moreover have "\<forall>c\<in>set (leadDigits t). isDigit c"
    unfolding leadDigits_def by (auto dest: set_takeWhileD)
  ultimately show ?thesis by blast
qed

lemma takeWhile_digits_append:
  assumes "\<forall>c\<in>set d. isDigit c" "g = [] \<or> \<not> isDigit (hd g)"
  shows "takeWhile isDigit (d @ g) = d" "dropWhile isDigit (d @ g) = g"
proof -
  from assms(2) have "takeWhile isDigit g = []" by (cases g) auto
  with assms(1) show "takeWhile isDigit (d @ g) = d" by (simp add: takeWhile_append2)
  from assms(2) have "dropWhile isDigit g = g" by (cases g) auto
  with assms(1) show "dropWhile isDigit (d @ g) = g" by (simp add: dropWhile_append2)
qed

lemma digits_prefix_leadDigits:
  assumes "prefix d t" "\<forall>c\<in>set d. isDigit c" "length d \<le> 3"
  shows "prefix d (leadDigits t)"
proof -
  from assms(1) obtain r where t: "t = d @ r" by (auto simp: prefix_def)
  have "take 3 t = d @ take (3 - length d) r" using assms(3) unfolding t by simp
  then have "takeWhile isDigit (take 3 t) = d @ takeWhile isDigit (take (3 - length d) r)"
    using assms(2) by (simp add: takeWhile_append2)
  then show ?thesis unfolding leadDigits_def by simp
qed

lemma matchCountAt_run:
  assumes "matchCountAt t = Some m"
  shows "prefix m t \<and> groupedDigits m \<and>
         (\<forall>m'. prefix m' t \<and> groupedDigits m' \<longrightarrow> length m' \<le> length m)"
proof -
  let ?d = "leadDigits t"
  let ?r = "drop (length ?d) t"
  let ?g = "thousands ?r"
  from assms have d: "?d \<noteq> []" and m: "m = ?d @ ?g"
    by (auto simp: matchCountAt_def Let_def split: if_splits)
  from leadDigits_props [of t] have pd: "prefix ?d t" and ld: "length ?d \<le> 3"
    and dd: "\<forall>c\<in>set ?d. isDigit c" by blast+
  from pd have t: "t = ?d @ ?r" by (metis append_eq_conv_conj prefixE)
  have pg: "prefix ?g ?r" by (rule thousands_prefix)
  have pm: "prefix m t" using pg t m by (metis same_prefix_prefix)
  have gh: "?g = [] \<or> \<not> isDigit (hd ?g)" using thousands_hd [of ?r] comma_no_digit by auto
  have tw: "takeWhile isDigit m = ?d" and dw: "dropWhile isDigit m = ?g"
    unfolding m using dd gh by (rule takeWhile_digits_append)+
  have gm: "groupedDigits m"
    unfolding groupedDigits_def tw dw using d ld isThousands_thousands [of ?r]
    by (simp add: Suc_le_eq)
  have mx: "length m' \<le> length m" if p: "prefix m' t" and g: "groupedDigits m'" for m'
  proof -
    let ?d' = "takeWhile isDigit m'"
    let ?g' = "dropWhile isDigit m'"
    have m': "m' = ?d' @ ?g'" by simp
    from g have l': "length ?d' \<le> 3" and ig: "isThousands ?g'" by (simp_all add: groupedDigits_def)
    have dd': "\<forall>c\<in>set ?d'. isDigit c" by (auto dest: set_takeWhileD)
    have "prefix ?d' m'" by (metis m' prefixI)
    from this p have pd': "prefix ?d' t" by (rule prefix_order.trans)
    from digits_prefix_leadDigits [OF pd' dd' l'] have pdd: "prefix ?d' ?d" .
    show ?thesis
    proof (cases "?g' = []")
      case True
      then have "length m' = length ?d'" by (metis m' append_Nil2)
      also have "\<dots> \<le> length ?d" using pdd by (rule prefix_length_le)
      also have "\<dots> \<le> length m" unfolding m by simp
      finally show ?thesis .
    next
      case False
      with isThousands_hd [OF ig] have hg: "hd ?g' = 0x2C" by blast
      from False obtain g'' where g'': "?g' = 0x2C # g''" using hg by (cases ?g') auto
      from p obtain z where z: "t = m' @ z" by (auto simp: prefix_def)
      have tt: "t = ?d' @ 0x2C # (g'' @ z)" using z m' g'' by (metis append_Cons append_assoc)
      have "takeWhile isDigit (take 3 t) = ?d'"
      proof -
        have "take 3 t = ?d' @ take (3 - length ?d') (0x2C # (g'' @ z))"
          using l' by (subst tt) simp
        moreover have "takeWhile isDigit (take (3 - length ?d') (0x2C # (g'' @ z))) = []"
          using comma_no_digit by (cases "3 - length ?d'") simp_all
        ultimately show ?thesis using dd' by (simp add: takeWhile_append2)
      qed
      then have eq: "?d = ?d'" by (simp add: leadDigits_def)
      have "?r = ?g' @ z" using tt g'' eq by (metis append_Cons append_eq_conv_conj)
      then have "prefix ?g' ?r" by (metis prefixI)
      from thousands_longest [OF ig this] have "length ?g' \<le> length ?g" by (rule prefix_length_le)
      moreover have "length m' = length ?d' + length ?g'" by (metis m' length_append)
      ultimately show ?thesis unfolding m eq by simp
    qed
  qed
  from pm gm mx show ?thesis by blast
qed

lemma matchCountAt_None: "matchCountAt (c # cs) = None \<longleftrightarrow> \<not> isDigit c"
  by (simp add: matchCountAt_def leadDigits_def Let_def)

lemma matchCount_None: "matchCount t = None \<longleftrightarrow> (\<forall>c\<in>set t. \<not> isDigit c)"
proof (induction t)
  case Nil
  then show ?case by simp
next
  case (Cons c cs)
  show ?case
  proof (cases "matchCountAt (c # cs)")
    case None
    with Cons matchCountAt_None [of c cs] show ?thesis by simp
  next
    case (Some m)
    with matchCountAt_None [of c cs] have "isDigit c" by auto
    with Some show ?thesis by simp
  qed
qed

lemma matchCount_Some:
  "matchCount t = Some m \<Longrightarrow>
   \<exists>pre. prefix pre t \<and> (\<forall>c\<in>set pre. \<not> isDigit c) \<and>
         matchCountAt (drop (length pre) t) = Some m"
proof (induction t)
  case Nil
  then show ?case by simp
next
  case (Cons c cs)
  show ?case
  proof (cases "matchCountAt (c # cs)")
    case None
    with Cons.prems have "matchCount cs = Some m" by simp
    from Cons.IH [OF this] obtain pre where pre: "prefix pre cs" "\<forall>c\<in>set pre. \<not> isDigit c"
      "matchCountAt (drop (length pre) cs) = Some m" by blast
    from None matchCountAt_None [of c cs] have "\<not> isDigit c" by simp
    with pre have "prefix (c # pre) (c # cs) \<and> (\<forall>x\<in>set (c # pre). \<not> isDigit x) \<and>
      matchCountAt (drop (length (c # pre)) (c # cs)) = Some m" by simp
    then show ?thesis by blast
  next
    case (Some m')
    with Cons.prems have "m' = m" by simp
    with Some have "prefix [] (c # cs) \<and> (\<forall>x\<in>set []. \<not> isDigit x) \<and>
      matchCountAt (drop (length ([] :: jsstring)) (c # cs)) = Some m" by simp
    then show ?thesis by blast
  qed
qed

lemma extractNumberFromText_None:
  "extractNumberFromText t = None \<longleftrightarrow> (\<forall>c\<in>set t. \<not> isDigit c)"
proof (cases "t = []")
  case True
  then show ?thesis by (simp add: extractNumberFromText_def)
next
  case False
  then have "extractNumberFromText t = None \<longleftrightarrow> matchCount t = None"
    by (simp add: extractNumberFromText_def split: option.split)
  then show ?thesis by (simp only: matchCount_None)
qed

lemma extractNumberFromText_Some:
  assumes n: "extractNumberFromText t = Some n"
  shows "\<exists>pre m rest. t = pre @ m @ rest \<and> (\<forall>c\<in>set pre. \<not> isDigit c) \<and> groupedDigits m \<and>
         (\<forall>m'. prefix m' (m @ rest) \<and> groupedDigits m' \<longrightarrow> length m' \<le> length m) \<and>
         n = parseInt10 (filter (\<lambda>c. c \<noteq> 0x2C) m)"
proof -
  from n have "t \<noteq> []" by (auto simp: extractNumberFromText_def)
  with n have "(case matchCount t of Some m \<Rightarrow> Some (parseInt10 (filter (\<lambda>c. c \<noteq> 0x2C) m)) | None \<Rightarrow> None) = Some n"
    by (simp add: extractNumberFromText_def)
  then obtain m where m: "matchCount t = Some m"
    and nm: "n = parseInt10 (filter (\<lambda>c. c \<noteq> 0x2C) m)"
    by (cases "matchCount t") simp_all
  from matchCount_Some [OF m] obtain pre where pre: "prefix pre t" "\<forall>c\<in>set pre. \<not> isDigit c"
    and at: "matchCountAt (drop (length pre) t) = Some m" by blast
  from matchCountAt_run [OF at] have pm: "prefix m (drop (length pre) t)" and gm: "groupedDigits m"
    and mx: "\<forall>m'. prefix m' (drop (length pre) t) \<and> groupedDigits m' \<longrightarrow> length m' \<le> length m"
    by blast+
  from pm obtain rest where rest: "drop (length pre) t = m @ rest" by (auto simp: prefix_def)
  from pre(1) have "t = pre @ drop (length pre) t" by (metis append_eq_conv_conj prefixE)
  then have t: "t = pre @ m @ rest" by (simp only: rest)
  from mx have mx': "\<forall>m'. prefix m' (m @ rest) \<and> groupedDigits m' \<longrightarrow> length m' \<le> length m"
    by (simp only: rest)
  from t pre(2) gm mx' nm show ?thesis by blast
qed

lemma totalResults_eq:
  \<open>s_totalResults (extractJobSearchResults doc now) =
     extractNumberFromText (text_sel (doc
       ''.results-context-header__job-count, .jobs-search-results-list__subtitle, .search-results__total''))\<close>
proof -
  let ?t = \<open>text_sel (doc
       ''.results-context-header__job-count, .jobs-search-results-list__subtitle, .search-results__total'')\<close>
  have "s_totalResults (extractJobSearchResults doc now) =
      (if ?t \<noteq> [] then extractNumberFromText ?t else None)"
    by (simp add: extractJobSearchResults_def Let_def)
  moreover have "extractNumberFromText [] = None" by (simp add: extractNumberFromText_def)
  ultimately show ?thesis by (cases "?t = []") simp_all
qed


text \<open>
  What the code computes. The count is absent exactly when the text holds no digit (an
  absent header has the empty text). Otherwise the text splits into a part without
  digits, then the longest string the pattern's group can match there, then the rest;
  the count is that string without its commas, parsed as an integer.
  \<^verbatim>\<open>extractJobSearchResults\<close> reports the count of the header text.
\<close>

lemma extractNumberFromText_match:
  \<open>(extractNumberFromText t = None \<longleftrightarrow> (\<forall>c\<in>set t. \<not> isDigit c)) \<and>
   (\<forall>n. extractNumberFromText t = Some n \<longrightarrow>
      (\<exists>pre m rest. t = pre @ m @ rest \<and> (\<forall>c\<in>set pre. \<not> isDigit c) \<and> groupedDigits m \<and>
         (\<forall>m'. prefix m' (m @ rest) \<and> groupedDigits m' \<longrightarrow> length m' \<le> length m) \<and>
         n = parseInt10 (filter (\<lambda>c. c \<noteq> 0x2C) m))) \<and>
   s_totalResults (extractJobSearchResults doc now) =
     extractNumberFromText (text_sel (doc
       ''.results-context-header__job-count, .jobs-search-results-list__subtitle, .search-results__total''))\<close>
proof (intro conjI allI impI)
  show "extractNumberFromText t = None \<longleftrightarrow> (\<forall>c\<in>set t. \<not> isDigit c)"
    by (rule extractNumberFromText_None)
next
  fix n assume "extractNumberFromText t = Some n"
  then show "\<exists>pre m rest. t = pre @ m @ rest \<and> (\<forall>c\<in>set pre. \<not> isDigit c) \<and> groupedDigits m \<and>
         (\<forall>m'. prefix m' (m @ rest) \<and> groupedDigits m' \<longrightarrow> length m' \<le> length m) \<and>
         n = parseInt10 (filter (\<lambda>c. c \<noteq> 0x2C) m)"
    by (rule extractNumberFromText_Some)
next
  show \<open>s_totalResults (extractJobSearchResults doc now) =
     extractNumberFromText (text_sel (doc
       ''.results-context-header__job-count, .jobs-search-results-list__subtitle, .search-results__total''))\<close>
    by (rule totalResults_eq)
qed

lemma matchCount_dropWhile: "matchCount t = matchCount (dropWhile (\<lambda>c. \<not> isDigit c) t)"
proof (induction t)
  case Nil
  then show ?case by simp
next
  case (Cons c cs)
  show ?case
  proof (cases "isDigit c")
    case True
    then show ?thesis by simp
  next
    case False
    then have "matchCountAt (c # cs) = None" by (simp add: matchCountAt_None)
    then have 1: "matchCount (c # cs) = matchCount cs" by simp
    from False have 2: "dropWhile (\<lambda>c. \<not> isDigit c) (c # cs) = dropWhile (\<lambda>c. \<not> isDigit c) cs"
      by simp
    from Cons show ?thesis by (simp only: 1 2)
  qed
qed

lemma matchCount_at_digit:
  assumes "isDigit c"
  shows "matchCount (c # cs) = matchCountAt (c # cs)"
proof (cases "matchCountAt (c # cs)")
  case None
  with assms show ?thesis by (simp add: matchCountAt_None)
next
  case (Some m)
  then show ?thesis by simp
qed

lemma isThousands_chars: "isThousands g \<Longrightarrow> \<forall>c\<in>set g. isDigit c \<or> c = 0x2C"
  by (induction g rule: isThousands.induct) simp_all

lemma groupedDigits_chars:
  assumes "groupedDigits m"
  shows "\<forall>c\<in>set m. isDigit c \<or> c = 0x2C"
proof
  fix c assume "c \<in> set m"
  then have "c \<in> set (takeWhile isDigit m @ dropWhile isDigit m)"
    by (simp only: takeWhile_dropWhile_id)
  then have "c \<in> set (takeWhile isDigit m) \<or> c \<in> set (dropWhile isDigit m)"
    by (simp only: set_append Un_iff)
  moreover from assms have "isThousands (dropWhile isDigit m)" by (simp add: groupedDigits_def)
  then have "\<forall>c\<in>set (dropWhile isDigit m). isDigit c \<or> c = 0x2C" by (rule isThousands_chars)
  ultimately show "isDigit c \<or> c = 0x2C" by (auto dest: set_takeWhileD)
qed

lemma prefix_takeWhile_all:
  assumes "prefix m s" "\<forall>c\<in>set m. P c"
  shows "prefix m (takeWhile P s)"
proof -
  from assms(1) obtain z where "s = m @ z" by (auto simp: prefix_def)
  with assms(2) have "takeWhile P s = m @ takeWhile P z" by (simp add: takeWhile_append2)
  then show ?thesis by simp
qed

lemma groupedDigits_not_Nil: "groupedDigits m \<Longrightarrow> m \<noteq> []"
  by (auto simp: groupedDigits_def)

text \<open>
  Where code and specification meet: when the first stretch of digits and commas is
  grouped as the pattern expects, one to three digits and then groups of a comma and three
  digits, the code reads exactly that stretch.
\<close>

lemma extractNumberFromText_grouped:
  assumes g: "groupedDigits (specFirstRun t)"
  shows "extractNumberFromText t = specCount t"
proof -
  let ?s = "dropWhile (\<lambda>c. \<not> isDigit c) t"
  let ?r = "specFirstRun t"
  have r: "?r = takeWhile (\<lambda>c. isDigit c \<or> c = 0x2C) ?s" by (simp add: specFirstRun_def)
  from g have rn: "?r \<noteq> []" by (rule groupedDigits_not_Nil)
  with r have sn: "?s \<noteq> []" by (metis takeWhile.simps(1))
  then have tn: "t \<noteq> []" by auto
  from sn have "isDigit (hd ?s)" using hd_dropWhile [of "\<lambda>c. \<not> isDigit c" t] by simp
  with sn obtain c cs where s: "?s = c # cs" and c: "isDigit c" by (cases ?s) auto
  have "matchCount t = matchCount ?s" by (rule matchCount_dropWhile)
  also have "\<dots> = matchCountAt ?s" unfolding s using c by (rule matchCount_at_digit)
  finally have mc: "matchCount t = matchCountAt ?s" .
  from c have "matchCountAt ?s \<noteq> None" unfolding s by (simp only: matchCountAt_None) simp
  then obtain m where m: "matchCountAt ?s = Some m" by blast
  from matchCountAt_run [OF m] have pm: "prefix m ?s" and gm: "groupedDigits m"
    and mx: "\<forall>m'. prefix m' ?s \<and> groupedDigits m' \<longrightarrow> length m' \<le> length m" by blast+
  have pr: "prefix ?r ?s" unfolding r by (metis prefixI takeWhile_dropWhile_id)
  with g mx have 1: "length ?r \<le> length m" by blast
  from prefix_takeWhile_all [OF pm groupedDigits_chars [OF gm]] have "prefix m ?r"
    by (simp only: r)
  with 1 have "m = ?r" by (metis prefix_length_le le_antisym prefix_length_prefix prefix_order.antisym pr pm)
  with mc m have "matchCount t = Some ?r" by simp
  with tn rn show ?thesis by (simp add: extractNumberFromText_def specCount_def)
qed

text \<open>
  C5, where the code departs from the claim: a numeral written without separators is read
  only up to its third digit. The first run of digits in \<^verbatim>\<open>"2500 jobs"\<close> is
  \<^verbatim>\<open>2500\<close> and in \<^verbatim>\<open>"1234 results"\<close> it is \<^verbatim>\<open>1234\<close>; the code returns 250 and
  123, also as the total of a listing page whose header has that text. On
  \<^verbatim>\<open>"32,000+ results"\<close> it returns the 32000 of the claim.
\<close>

theorem extractNumberFromText_truncates:
  "specFirstRun (js ''2500 jobs'') = js ''2500'' \<and>
   specCount (js ''2500 jobs'') = Some (Num 2500) \<and>
   extractNumberFromText (js ''2500 jobs'') = Some (Num 250) \<and>
   s_totalResults (extractJobSearchResults (headerDocument (js ''2500 jobs'')) []) = Some (Num 250) \<and>
   specCount (js ''1234 results'') = Some (Num 1234) \<and>
   extractNumberFromText (js ''1234 results'') = Some (Num 123) \<and>
   specCount (js ''32,000+ results'') = Some (Num 32000) \<and>
   extractNumberFromText (js ''32,000+ results'') = Some (Num 32000)"
proof -
  have 1: "specFirstRun (js ''2500 jobs'') = js ''2500''" by code_simp
  have 2: "specCount (js ''2500 jobs'') = Some (Num 2500)" by code_simp
  have 3: "extractNumberFromText (js ''2500 jobs'') = Some (Num 250)" by code_simp
  have 4: "s_totalResults (extractJobSearchResults (headerDocument (js ''2500 jobs'')) []) = Some (Num 250)"
    by code_simp
  have 5: "specCount (js ''1234 results'') = Some (Num 1234)" by code_simp
  have 6: "extractNumberFromText (js ''1234 results'') = Some (Num 123)" by code_simp
  have 7: "specCount (js ''32,000+ results'') = Some (Num 32000)" by code_simp
  have 8: "extractNumberFromText (js ''32,000+ results'') = Some (Num 32000)" by code_simp
  from 1 2 3 4 5 6 7 8 show ?thesis by (intro conjI)
qed

section \<open>Properties of \<open>extractJobDetail\<close>\<close>

lemma extractJobDetail_None:
  "extractJobDetail doc now = None \<longleftrightarrow> detailTitle doc = [] \<and> detailCompany doc = []"
  by (simp add: extractJobDetail_def Let_def)

lemma cleanText_Nil: "cleanText [] = []"
  by (simp add: cleanText_def)

lemma text_sel_Nil: "text_sel [] = []"
  by (simp add: text_sel_def)

lemma detailTitle_no_elements:
  assumes \<open>doc ''.topcard__title'' = []\<close> \<open>doc ''h1[data-test-id="job-title"]'' = []\<close>
    \<open>doc ''title'' = []\<close>
  shows "detailTitle doc = []"
  unfolding detailTitle_def assms by (simp add: text_sel_Nil cleanText_Nil orElse_def)

lemma detailCompany_no_elements:
  assumes \<open>doc ''.topcard__org-name-link'' = []\<close> \<open>doc ''.sub-nav-cta__optional-url'' = []\<close>
    \<open>doc ''meta[property="og:title"]'' = []\<close>
  shows "detailCompany doc = []"
  unfolding detailCompany_def assms by (simp add: text_sel_Nil cleanText_Nil orElse_def attr_sel_def)

lemma extractJobDetail_Some:
  assumes "detailTitle doc \<noteq> [] \<or> detailCompany doc \<noteq> []"
  shows "\<exists>r. extractJobDetail doc now = Some r \<and>
           jobTitle r = orElse (detailTitle doc) (js ''Unknown Title'') \<and>
           companyName r = orElse (detailCompany doc) (js ''Unknown Company'') \<and>
           location r = orElse (detailLocation doc) (js ''Unknown Location'')"
  using assms by (auto simp add: extractJobDetail_def Let_def)

lemma detailTitle_Nil:
  \<open>detailTitle doc = [] \<longleftrightarrow>
     cleanText (text_sel (doc ''.topcard__title'')) = [] \<and>
     cleanText (text_sel (doc ''h1[data-test-id="job-title"]'')) = [] \<and>
     cleanText (stripSiteSuffix (text_sel (doc ''title''))) = []\<close>
  by (simp add: detailTitle_def orElse_def)

lemma detailCompany_Nil:
  \<open>detailCompany doc = [] \<longleftrightarrow>
     cleanText (text_sel (doc ''.topcard__org-name-link'')) = [] \<and>
     cleanText (text_sel (doc ''.sub-nav-cta__optional-url'')) = [] \<and>
     (\<forall>content. attr_sel (doc ''meta[property="og:title"]'') ''content'' = Some content \<longrightarrow>
        trim (splitHead (js '' hiring '') content) = [])\<close>
  by (simp add: detailCompany_def orElse_def split: option.split)

text \<open>
  C8, refuted as worded: a document can hold a title-bearing element, a
  \<^verbatim>\<open><title>\<close> and an Open-Graph title and still yield nothing, because every text
  read from them is empty once it is sanitised or cut.
\<close>

theorem extractJobDetail_absent_with_elements:
  \<open>emptyTextsDocument ''.topcard__title'' \<noteq> [] \<and>
   emptyTextsDocument ''title'' \<noteq> [] \<and>
   attr_sel (emptyTextsDocument ''meta[property="og:title"]'') ''content''
     = Some (js '' hiring Engineer'') \<and>
   extractJobDetail emptyTextsDocument [] = None\<close>
proof -
  have 1: \<open>emptyTextsDocument ''.topcard__title'' \<noteq> []\<close>
    \<open>emptyTextsDocument ''title'' \<noteq> []\<close>
    by (simp_all add: emptyTextsDocument_def)
  have 2: \<open>attr_sel (emptyTextsDocument ''meta[property="og:title"]'') ''content''
     = Some (js '' hiring Engineer'')\<close> by code_simp
  have 3: "extractJobDetail emptyTextsDocument [] = None" by code_simp
  from 1 2 3 show ?thesis by (intro conjI)
qed

text \<open>
  C8, amended and stated on what the document's queries return.  \<open>extractJobDetail\<close>
  returns nothing exactly when each of the six texts it reads for title and company is
  empty in the form it is used: the texts of \<^verbatim>\<open>.topcard__title\<close> and of the
  \<^verbatim>\<open>h1\<close> after sanitising, the text of \<^verbatim>\<open><title>\<close> after its site suffix is
  stripped and it is sanitised, the texts of the two company elements after sanitising,
  and the Open-Graph title's content, if there is one, before its first
  \<^verbatim>\<open>" hiring "\<close> and trimmed.  A document without any of the six elements is such a
  document.  Any record returned carries the first non-empty title text, or
  \<^verbatim>\<open>"Unknown Title"\<close> when there is none, and the first non-empty company text, or
  \<^verbatim>\<open>"Unknown Company"\<close>.
\<close>

theorem extractJobDetail_absent:
  \<open>(extractJobDetail doc now = None \<longleftrightarrow>
      cleanText (text_sel (doc ''.topcard__title'')) = [] \<and>
      cleanText (text_sel (doc ''h1[data-test-id="job-title"]'')) = [] \<and>
      cleanText (stripSiteSuffix (text_sel (doc ''title''))) = [] \<and>
      cleanText (text_sel (doc ''.topcard__org-name-link'')) = [] \<and>
      cleanText (text_sel (doc ''.sub-nav-cta__optional-url'')) = [] \<and>
      (\<forall>content. attr_sel (doc ''meta[property="og:title"]'') ''content'' = Some content \<longrightarrow>
         trim (splitHead (js '' hiring '') content) = [])) \<and>
   (doc ''.topcard__title'' = [] \<and> doc ''h1[data-test-id="job-title"]'' = [] \<and>
    doc ''title'' = [] \<and> doc ''.topcard__org-name-link'' = [] \<and>
    doc ''.sub-nav-cta__optional-url'' = [] \<and> doc ''meta[property="og:title"]'' = []
      \<longrightarrow> extractJobDetail doc now = None) \<and>
   (\<forall>r. extractJobDetail doc now = Some r \<longrightarrow>
      jobTitle r =
        orElse (orElse (cleanText (text_sel (doc ''.topcard__title'')))
                 (orElse (cleanText (text_sel (doc ''h1[data-test-id="job-title"]'')))
                    (cleanText (stripSiteSuffix (text_sel (doc ''title''))))))
          (js ''Unknown Title'') \<and>
      companyName r =
        orElse (orElse (cleanText (text_sel (doc ''.topcard__org-name-link'')))
                 (orElse (cleanText (text_sel (doc ''.sub-nav-cta__optional-url'')))
                    (case attr_sel (doc ''meta[property="og:title"]'') ''content'' of
                       None \<Rightarrow> []
                     | Some content \<Rightarrow> trim (splitHead (js '' hiring '') content))))
          (js ''Unknown Company'')) \<and>
   (cleanText (text_sel (doc ''.topcard__title'')) = [] \<and>
    cleanText (text_sel (doc ''h1[data-test-id="job-title"]'')) = [] \<and>
    cleanText (stripSiteSuffix (text_sel (doc ''title''))) = [] \<and>
    extractJobDetail doc now \<noteq> None \<longrightarrow>
      (\<exists>r. extractJobDetail doc now = Some r \<and> jobTitle r = js ''Unknown Title''))\<close>
proof (intro conjI allI impI)
  show \<open>extractJobDetail doc now = None \<longleftrightarrow>
      cleanText (text_sel (doc ''.topcard__title'')) = [] \<and>
      cleanText (text_sel (doc ''h1[data-test-id="job-title"]'')) = [] \<and>
      cleanText (stripSiteSuffix (text_sel (doc ''title''))) = [] \<and>
      cleanText (text_sel (doc ''.topcard__org-name-link'')) = [] \<and>
      cleanText (text_sel (doc ''.sub-nav-cta__optional-url'')) = [] \<and>
      (\<forall>content. attr_sel (doc ''meta[property="og:title"]'') ''content'' = Some content \<longrightarrow>
         trim (splitHead (js '' hiring '') content) = [])\<close>
    unfolding extractJobDetail_None detailTitle_Nil detailCompany_Nil by blast
next
  assume \<open>doc ''.topcard__title'' = [] \<and> doc ''h1[data-test-id="job-title"]'' = [] \<and>
    doc ''title'' = [] \<and> doc ''.topcard__org-name-link'' = [] \<and>
    doc ''.sub-nav-cta__optional-url'' = [] \<and> doc ''meta[property="og:title"]'' = []\<close>
  then have "detailTitle doc = []" "detailCompany doc = []"
    using detailTitle_no_elements detailCompany_no_elements by blast+
  then show "extractJobDetail doc now = None" by (simp only: extractJobDetail_None)
next
  fix r
  assume r: "extractJobDetail doc now = Some r"
  then have "\<not> (detailTitle doc = [] \<and> detailCompany doc = [])"
    using extractJobDetail_None [of doc now] by simp
  then have "detailTitle doc \<noteq> [] \<or> detailCompany doc \<noteq> []" by blast
  from extractJobDetail_Some [OF this, of now] r
  have t: "jobTitle r = orElse (detailTitle doc) (js ''Unknown Title'')"
    and c: "companyName r = orElse (detailCompany doc) (js ''Unknown Company'')" by auto
  from t show \<open>jobTitle r =
        orElse (orElse (cleanText (text_sel (doc ''.topcard__title'')))
                 (orElse (cleanText (text_sel (doc ''h1[data-test-id="job-title"]'')))
                    (cleanText (stripSiteSuffix (text_sel (doc ''title''))))))
          (js ''Unknown Title'')\<close>
    by (simp only: detailTitle_def)
  from c show \<open>companyName r =
        orElse (orElse (cleanText (text_sel (doc ''.topcard__org-name-link'')))
                 (orElse (cleanText (text_sel (doc ''.sub-nav-cta__optional-url'')))
                    (case attr_sel (doc ''meta[property="og:title"]'') ''content'' of
                       None \<Rightarrow> []
                     | Some content \<Rightarrow> trim (splitHead (js '' hiring '') content))))
          (js ''Unknown Company'')\<close>
    by (simp add: detailCompany_def orElse_def)
next
  assume a: \<open>cleanText (text_sel (doc ''.topcard__title'')) = [] \<and>
    cleanText (text_sel (doc ''h1[data-test-id="job-title"]'')) = [] \<and>
    cleanText (stripSiteSuffix (text_sel (doc ''title''))) = [] \<and>
    extractJobDetail doc now \<noteq> None\<close>
  then have t: "detailTitle doc = []" by (simp only: detailTitle_Nil)
  from a have "\<not> (detailTitle doc = [] \<and> detailCompany doc = [])"
    using extractJobDetail_None [of doc now] by simp
  then have "detailTitle doc \<noteq> [] \<or> detailCompany doc \<noteq> []" by blast
  from extractJobDetail_Some [OF this, of now] obtain r where
    "extractJobDetail doc now = Some r"
    "jobTitle r = orElse (detailTitle doc) (js ''Unknown Title'')" by blast
  with t have "extractJobDetail doc now = Some r \<and> jobTitle r = js ''Unknown Title''"
    by (simp add: orElse_def)
  then show "\<exists>r. extractJobDetail doc now = Some r \<and> jobTitle r = js ''Unknown Title''"
    by blast
qed

text \<open>
  The amended C8 on three documents: one without any element; one whose only company
  comes from the Open-Graph title while its \<^verbatim>\<open><title>\<close> holds nothing but the site
  suffix; and one whose only content is a \<^verbatim>\<open><title>\<close>, from which the record's
  title is read.
\<close>

theorem extractJobDetail_absent_witness:
  "extractJobDetail emptyDocument [] = None \<and>
   (\<exists>r. extractJobDetail companyOnlyDocument [] = Some r \<and> jobTitle r = js ''Unknown Title'' \<and>
        companyName r = js ''Acme Corp'') \<and>
   (\<exists>r. extractJobDetail titleOnlyDocument [] = Some r \<and> jobTitle r = js ''Engineer'' \<and>
        companyName r = js ''Unknown Company'')"
proof -
  have e: \<open>emptyDocument ''.topcard__title'' = [] \<and> emptyDocument ''h1[data-test-id="job-title"]'' = [] \<and>
    emptyDocument ''title'' = [] \<and> emptyDocument ''.topcard__org-name-link'' = [] \<and>
    emptyDocument ''.sub-nav-cta__optional-url'' = [] \<and> emptyDocument ''meta[property="og:title"]'' = []\<close>
    by (simp add: emptyDocument_def)
  from extractJobDetail_absent [of emptyDocument "[]", THEN conjunct2, THEN conjunct1] e
  have 1: "extractJobDetail emptyDocument [] = None" by blast
  have "extractJobDetail companyOnlyDocument [] \<noteq> None" by code_simp
  then obtain r where r: "extractJobDetail companyOnlyDocument [] = Some r" by blast
  have ct: \<open>orElse (orElse (cleanText (text_sel (companyOnlyDocument ''.topcard__title'')))
                 (orElse (cleanText (text_sel (companyOnlyDocument ''h1[data-test-id="job-title"]'')))
                    (cleanText (stripSiteSuffix (text_sel (companyOnlyDocument ''title''))))))
          (js ''Unknown Title'') = js ''Unknown Title''\<close> by code_simp
  have cc: \<open>orElse (orElse (cleanText (text_sel (companyOnlyDocument ''.topcard__org-name-link'')))
                 (orElse (cleanText (text_sel (companyOnlyDocument ''.sub-nav-cta__optional-url'')))
                    (case attr_sel (companyOnlyDocument ''meta[property="og:title"]'') ''content'' of
                       None \<Rightarrow> []
                     | Some content \<Rightarrow> trim (splitHead (js '' hiring '') content))))
          (js ''Unknown Company'') = js ''Acme Corp''\<close> by code_simp
  from extractJobDetail_absent [of companyOnlyDocument "[]", THEN conjunct2, THEN conjunct2,
      THEN conjunct1, THEN spec, of r] r
  have "jobTitle r = js ''Unknown Title'' \<and> companyName r = js ''Acme Corp''"
    by (simp only: ct cc)
  with r have 2: "\<exists>r. extractJobDetail companyOnlyDocument [] = Some r \<and>
      jobTitle r = js ''Unknown Title'' \<and> companyName r = js ''Acme Corp''" by blast
  have "extractJobDetail titleOnlyDocument [] \<noteq> None" by code_simp
  then obtain q where q: "extractJobDetail titleOnlyDocument [] = Some q" by blast
  have tt: \<open>orElse (orElse (cleanText (text_sel (titleOnlyDocument ''.topcard__title'')))
                 (orElse (cleanText (text_sel (titleOnlyDocument ''h1[data-test-id="job-title"]'')))
                    (cleanText (stripSiteSuffix (text_sel (titleOnlyDocument ''title''))))))
          (js ''Unknown Title'') = js ''Engineer''\<close> by code_simp
  have tc: \<open>orElse (orElse (cleanText (text_sel (titleOnlyDocument ''.topcard__org-name-link'')))
                 (orElse (cleanText (text_sel (titleOnlyDocument ''.sub-nav-cta__optional-url'')))
                    (case attr_sel (titleOnlyDocument ''meta[property="og:title"]'') ''content'' of
                       None \<Rightarrow> []
                     | Some content \<Rightarrow> trim (splitHead (js '' hiring '') content))))
          (js ''Unknown Company'') = js ''Unknown Company''\<close> by code_simp
  from extractJobDetail_absent [of titleOnlyDocument "[]", THEN conjunct2, THEN conjunct2,
      THEN conjunct1, THEN spec, of q] q
  have "jobTitle q = js ''Engineer'' \<and> companyName q = js ''Unknown Company''"
    by (simp only: tt tc)
  with q have 3: "\<exists>r. extractJobDetail titleOnlyDocument [] = Some r \<and>
      jobTitle r = js ''Engineer'' \<and> companyName r = js ''Unknown Company''" by blast
  from 1 2 3 show ?thesis by (intro conjI)
qed

text \<open>
  C10: a record that \<open>extractJobDetail\<close> produces never has an empty location: it is what
  the location chain found or, when that is empty, \<^verbatim>\<open>"Unknown Location"\<close>, which is neither
  the \<^verbatim>\<open>"Not specified"\<close> of listing pages nor one of the two other sentinels.
\<close>

theorem extractJobDetail_location:
  "(extractJobDetail doc now = Some r \<longrightarrow>
      location r \<noteq> [] \<and>
      (detailLocation doc = [] \<longrightarrow> location r = js ''Unknown Location'') \<and>
      (detailLocation doc \<noteq> [] \<longrightarrow> location r = detailLocation doc)) \<and>
   js ''Unknown Location'' \<noteq> js ''Not specified'' \<and>
   js ''Unknown Location'' \<noteq> js ''Unknown Title'' \<and>
   js ''Unknown Location'' \<noteq> js ''Unknown Company''"
proof -
  have s: "js ''Unknown Location'' \<noteq> []" by (simp add: js_def)
  have 1: "extractJobDetail doc now = Some r \<longrightarrow>
      location r \<noteq> [] \<and>
      (detailLocation doc = [] \<longrightarrow> location r = js ''Unknown Location'') \<and>
      (detailLocation doc \<noteq> [] \<longrightarrow> location r = detailLocation doc)"
  proof
    assume r: "extractJobDetail doc now = Some r"
    then have "\<not> (detailTitle doc = [] \<and> detailCompany doc = [])"
      using extractJobDetail_None [of doc now] by simp
    then have "detailTitle doc \<noteq> [] \<or> detailCompany doc \<noteq> []" by blast
    from extractJobDetail_Some [OF this, of now] r
    have "location r = orElse (detailLocation doc) (js ''Unknown Location'')" by auto
    with s show "location r \<noteq> [] \<and>
      (detailLocation doc = [] \<longrightarrow> location r = js ''Unknown Location'') \<and>
      (detailLocation doc \<noteq> [] \<longrightarrow> location r = detailLocation doc)"
      by (simp add: orElse_def)
  qed
  have 2: "js ''Unknown Location'' \<noteq> js ''Not specified''"
    "js ''Unknown Location'' \<noteq> js ''Unknown Title''"
    "js ''Unknown Location'' \<noteq> js ''Unknown Company''" by (simp_all add: js_def)
  from 1 2 show ?thesis by (intro conjI)
qed

text \<open>C10 on the document whose only content is a company: no location element at all.\<close>

theorem extractJobDetail_location_witness:
  "detailLocation companyOnlyDocument = [] \<and>
   (\<exists>r. extractJobDetail companyOnlyDocument [] = Some r \<and> location r = js ''Unknown Location'')"
proof -
  have l: "detailLocation companyOnlyDocument = []" by code_simp
  have "extractJobDetail companyOnlyDocument [] \<noteq> None" by code_simp
  then obtain r where r: "extractJobDetail companyOnlyDocument [] = Some r" by blast
  from extractJobDetail_location [of companyOnlyDocument "[]" r, THEN conjunct1] r l
  have "location r = js ''Unknown Location''" by blast
  with r l show ?thesis by blast
qed

section \<open>Properties of \<open>extractJobSearchResults\<close>\<close>

lemma pushEach_extractCard:
  "map (\<lambda>j. (r_jobTitle j, r_companyName j)) (pushEach extractCard cards) =
   map (\<lambda>c. (cardTitle c, cardCompany c)) (filter validCard cards)"
  by (induction cards) (simp_all add: extractCard_def validCard_def Let_def)

lemma pushEach_extractSimilarCard:
  "map (\<lambda>j. (r_jobTitle j, r_companyName j)) (pushEach extractSimilarCard cards) =
   map (\<lambda>c. (similarTitle c, similarCompany c)) (filter validSimilarCard cards)"
  by (induction cards) (simp_all add: extractSimilarCard_def validSimilarCard_def Let_def)

lemma s_jobs_extractJobSearchResults:
  \<open>s_jobs (extractJobSearchResults doc now) =
     (if pushEach extractCard (doc JOB_CARD_SELECTORS) = []
      then pushEach extractSimilarCard
             (doc ''.base-card[data-tracking-control-name="public_jobs_similar-jobs"]'')
      else pushEach extractCard (doc JOB_CARD_SELECTORS))\<close>
  by (simp add: extractJobSearchResults_def Let_def)

lemma pushEach_extractCard_Nil:
  "pushEach extractCard cards = [] \<longleftrightarrow> filter validCard cards = []"
proof -
  have "pushEach extractCard cards = [] \<longleftrightarrow>
        map (\<lambda>j. (r_jobTitle j, r_companyName j)) (pushEach extractCard cards) = []"
    by simp
  also have "\<dots> \<longleftrightarrow> map (\<lambda>c. (cardTitle c, cardCompany c)) (filter validCard cards) = []"
    by (simp only: pushEach_extractCard)
  also have "\<dots> \<longleftrightarrow> filter validCard cards = []" by simp
  finally show ?thesis .
qed

lemma names_nonempty:
  assumes "map (\<lambda>j. (r_jobTitle j, r_companyName j)) jobs = map f (filter P cards)"
    and "\<And>c. P c \<Longrightarrow> fst (f c) \<noteq> [] \<and> snd (f c) \<noteq> []"
    and "j \<in> set jobs"
  shows "r_jobTitle j \<noteq> [] \<and> r_companyName j \<noteq> []"
proof -
  from assms(3) have "(r_jobTitle j, r_companyName j) \<in> set (map (\<lambda>j. (r_jobTitle j, r_companyName j)) jobs)"
    by (rule imageI [of j "set jobs" "\<lambda>j. (r_jobTitle j, r_companyName j)", folded set_map])
  then have "(r_jobTitle j, r_companyName j) \<in> set (map f (filter P cards))"
    by (simp only: assms(1))
  then obtain c where "P c" "(r_jobTitle j, r_companyName j) = f c" by auto
  with assms(2) [of c] show ?thesis by (metis fst_conv snd_conv)
qed

text \<open>
  C3, as stated: the result has exactly as many items as the document has valid listing
  cards. It has not when there is none: the cards of the similar-jobs section are taken
  instead. Here the document has no listing card at all, and the result has one item.
\<close>

theorem extractJobSearchResults_count_counterexample:
  "length (s_jobs (extractJobSearchResults similarOnlyDocument [])) \<noteq>
   length (filter validCard (similarOnlyDocument JOB_CARD_SELECTORS))"
  by code_simp

text \<open>
  C3, amended: no item of the result has an empty title or an empty company. When the
  document has valid listing cards, the items are these cards, in document order, each
  with its title and company, so there are as many items as valid cards; when it has
  none, the items are the valid cards of the similar-jobs section.
\<close>

theorem extractJobSearchResults_items:
  \<open>(\<forall>j\<in>set (s_jobs (extractJobSearchResults doc now)).
      r_jobTitle j \<noteq> [] \<and> r_companyName j \<noteq> []) \<and>
   (filter validCard (doc JOB_CARD_SELECTORS) \<noteq> [] \<longrightarrow>
      map (\<lambda>j. (r_jobTitle j, r_companyName j)) (s_jobs (extractJobSearchResults doc now)) =
        map (\<lambda>c. (cardTitle c, cardCompany c)) (filter validCard (doc JOB_CARD_SELECTORS)) \<and>
      length (s_jobs (extractJobSearchResults doc now)) =
        length (filter validCard (doc JOB_CARD_SELECTORS))) \<and>
   (filter validCard (doc JOB_CARD_SELECTORS) = [] \<longrightarrow>
      map (\<lambda>j. (r_jobTitle j, r_companyName j)) (s_jobs (extractJobSearchResults doc now)) =
        map (\<lambda>c. (similarTitle c, similarCompany c)) (filter validSimilarCard
          (doc ''.base-card[data-tracking-control-name="public_jobs_similar-jobs"]'')) \<and>
      length (s_jobs (extractJobSearchResults doc now)) =
        length (filter validSimilarCard
          (doc ''.base-card[data-tracking-control-name="public_jobs_similar-jobs"]'')))\<close>
proof -
  let ?cards = "doc JOB_CARD_SELECTORS"
  let ?similar = \<open>doc ''.base-card[data-tracking-control-name="public_jobs_similar-jobs"]''\<close>
  let ?jobs = "s_jobs (extractJobSearchResults doc now)"
  let ?names = "map (\<lambda>j. (r_jobTitle j, r_companyName j))"
  have main: "?names ?jobs = map (\<lambda>c. (cardTitle c, cardCompany c)) (filter validCard ?cards)"
    if ne: "filter validCard ?cards \<noteq> []"
  proof -
    from ne have "pushEach extractCard ?cards \<noteq> []" using pushEach_extractCard_Nil by blast
    then have "?jobs = pushEach extractCard ?cards" by (simp add: s_jobs_extractJobSearchResults)
    then show ?thesis by (simp only: pushEach_extractCard)
  qed
  have fallback: "?names ?jobs =
      map (\<lambda>c. (similarTitle c, similarCompany c)) (filter validSimilarCard ?similar)"
    if e: "filter validCard ?cards = []"
  proof -
    from e have "pushEach extractCard ?cards = []" using pushEach_extractCard_Nil by blast
    then have "?jobs = pushEach extractSimilarCard ?similar"
      by (simp add: s_jobs_extractJobSearchResults)
    then show ?thesis by (simp only: pushEach_extractSimilarCard)
  qed
  have len: "length jobs = length xs" if "?names jobs = map f xs"
    for jobs :: "JobSearchResult list" and f :: "element \<Rightarrow> jsstring \<times> jsstring" and xs
    using that by (metis length_map)
  have nonempty: "r_jobTitle j \<noteq> [] \<and> r_companyName j \<noteq> []" if j: "j \<in> set ?jobs" for j
  proof (cases "filter validCard ?cards = []")
    case True
    from fallback [OF True] _ j show ?thesis
      by (rule names_nonempty) (simp add: validSimilarCard_def)
  next
    case False
    from main [OF False] _ j show ?thesis
      by (rule names_nonempty) (simp add: validCard_def)
  qed
  from main len have 1: "filter validCard ?cards \<noteq> [] \<longrightarrow>
      ?names ?jobs = map (\<lambda>c. (cardTitle c, cardCompany c)) (filter validCard ?cards) \<and>
      length ?jobs = length (filter validCard ?cards)" by blast
  from fallback len have 2: "filter validCard ?cards = [] \<longrightarrow>
      ?names ?jobs = map (\<lambda>c. (similarTitle c, similarCompany c)) (filter validSimilarCard ?similar) \<and>
      length ?jobs = length (filter validSimilarCard ?similar)" by blast
  from nonempty have 0: "\<forall>j\<in>set ?jobs. r_jobTitle j \<noteq> [] \<and> r_companyName j \<noteq> []" by blast
  from 0 1 2 show ?thesis by (intro conjI)
qed

text \<open>
  The amended C3 on the listing of the specification's example, one valid card of two,
  and on the page that has only a similar-jobs card.
\<close>

theorem extractJobSearchResults_items_witness:
  "filter validCard (listingDocument JOB_CARD_SELECTORS) = [cardA] \<and>
   length (listingDocument JOB_CARD_SELECTORS) = 2 \<and>
   length (s_jobs (extractJobSearchResults listingDocument [])) = 1 \<and>
   map (\<lambda>j. (r_jobTitle j, r_companyName j)) (s_jobs (extractJobSearchResults listingDocument [])) =
     [(js ''Backend Engineer'', js ''Acme Corp'')] \<and>
   map r_jobUrl (s_jobs (extractJobSearchResults listingDocument [])) =
     [js ''https://www.linkedin.com/jobs/view/123''] \<and>
   filter validCard (similarOnlyDocument JOB_CARD_SELECTORS) = [] \<and>
   map (\<lambda>j. (r_jobTitle j, r_companyName j)) (s_jobs (extractJobSearchResults similarOnlyDocument [])) =
     [(js ''Site Engineer'', js ''Initech'')]"
proof -
  have a: "validCard cardA" by code_simp
  have b: "\<not> validCard cardB" by code_simp
  have cards: "listingDocument JOB_CARD_SELECTORS = [cardA, cardB]"
    by (simp add: listingDocument_def)
  from a b have v: "filter validCard (listingDocument JOB_CARD_SELECTORS) = [cardA]"
    by (simp add: cards)
  have n: "(cardTitle cardA, cardCompany cardA) = (js ''Backend Engineer'', js ''Acme Corp'')"
    by code_simp
  from extractJobSearchResults_items [of listingDocument "[]", THEN conjunct2, THEN conjunct1] v n
  have 1: "map (\<lambda>j. (r_jobTitle j, r_companyName j)) (s_jobs (extractJobSearchResults listingDocument [])) =
     [(js ''Backend Engineer'', js ''Acme Corp'')]"
    and 2: "length (s_jobs (extractJobSearchResults listingDocument [])) = 1"
    by simp_all
  have 3: "map r_jobUrl (s_jobs (extractJobSearchResults listingDocument [])) =
     [js ''https://www.linkedin.com/jobs/view/123'']" by code_simp
  have none: "similarOnlyDocument JOB_CARD_SELECTORS = []"
    by (simp add: similarOnlyDocument_def JOB_CARD_SELECTORS_def)
  then have e: "filter validCard (similarOnlyDocument JOB_CARD_SELECTORS) = []" by simp
  have sv: "validSimilarCard similarCard" by code_simp
  have s: \<open>filter validSimilarCard
      (similarOnlyDocument ''.base-card[data-tracking-control-name="public_jobs_similar-jobs"]'') = [similarCard]\<close>
    by (simp add: similarOnlyDocument_def sv)
  have sn: "(similarTitle similarCard, similarCompany similarCard) = (js ''Site Engineer'', js ''Initech'')"
    by code_simp
  from extractJobSearchResults_items [of similarOnlyDocument "[]", THEN conjunct2, THEN conjunct2] e s sn
  have 4: "map (\<lambda>j. (r_jobTitle j, r_companyName j)) (s_jobs (extractJobSearchResults similarOnlyDocument [])) =
     [(js ''Site Engineer'', js ''Initech'')]"
    by simp
  from v cards 1 2 3 e 4 show ?thesis by simp
qed

section \<open>Properties of the cache\<close>

lemma map_set_keys:
  "map fst (map_set k v m) = (if k \<in> set (map fst m) then map fst m else map fst m @ [k])"
  by (induction m) auto

lemma map_set_length: "length (map_set k v m) \<le> Suc (length m)"
  by (induction m) auto

lemma map_set_distinct: "distinct (map fst m) \<Longrightarrow> distinct (map fst (map_set k v m))"
  by (simp add: map_set_keys)

lemma map_delete_distinct: "distinct (map fst m) \<Longrightarrow> distinct (map fst (map_delete k m))"
  by (simp add: map_delete_def distinct_map_filter)

lemma map_delete_split:
  assumes "distinct (map fst (us @ e # vs))"
  shows "map_delete (fst e) (us @ e # vs) = us @ vs"
proof -
  from assms have "\<forall>x\<in>set us. fst x \<noteq> fst e" "\<forall>x\<in>set vs. fst x \<noteq> fst e"
    by (force simp: image_iff)+
  then show ?thesis by (simp add: map_delete_def filter_id_conv)
qed

lemma hd_sort_key:
  assumes "xs \<noteq> []"
  shows "\<exists>us vs. xs = us @ hd (sort_key f xs) # vs \<and>
           (\<forall>x\<in>set us. f (hd (sort_key f xs)) < f x) \<and>
           (\<forall>x\<in>set vs. f (hd (sort_key f xs)) \<le> f x)"
proof -
  let ?s = "sort_key f xs"
  let ?h = "hd ?s"
  from assms have ne: "?s \<noteq> []" by (metis length_0_conv length_sort)
  then obtain r where s: "?s = ?h # r" by (cases ?s) auto
  have "sorted (map f ?s)" by (rule sorted_sort_key)
  then have "\<forall>x\<in>set r. f ?h \<le> f x" by (subst (asm) s) simp
  then have "\<forall>x\<in>set ?s. f ?h \<le> f x" by (subst s) simp
  then have lo: "\<forall>x\<in>set xs. f ?h \<le> f x" by simp
  have "filter (\<lambda>y. f y = f ?h) xs = filter (\<lambda>y. f y = f ?h) ?s"
    by (rule sort_key_stable [symmetric])
  also have "\<dots> = ?h # filter (\<lambda>y. f y = f ?h) r" by (subst s) simp
  finally obtain us vs where xs: "xs = us @ ?h # vs" and us: "\<forall>u\<in>set us. f u \<noteq> f ?h"
    by (auto simp: filter_eq_Cons_iff)
  from lo have "\<forall>x\<in>set us. f ?h \<le> f x" "\<forall>x\<in>set vs. f ?h \<le> f x"
    by (subst (asm) xs, simp)+
  with us have "(\<forall>x\<in>set us. f ?h < f x) \<and> (\<forall>x\<in>set vs. f ?h \<le> f x)"
    by (metis order_le_imp_less_or_eq)
  with xs show ?thesis by blast
qed

lemma setCachedResult_distinct:
  "distinct (map fst c) \<Longrightarrow> distinct (map fst (setCachedResult url markup now c))"
  by (simp add: setCachedResult_def Let_def map_set_distinct map_delete_distinct)

lemma setCachedResult_keep:
  "length (map_set url \<lparr> html = markup, timestamp = now \<rparr> c) \<le> MAX_CACHE_SIZE \<Longrightarrow>
   setCachedResult url markup now c = map_set url \<lparr> html = markup, timestamp = now \<rparr> c"
  by (simp add: setCachedResult_def Let_def)

lemma setCachedResult_evict:
  assumes d: "distinct (map fst c)"
    and over: "length (map_set url \<lparr> html = markup, timestamp = now \<rparr> c) > MAX_CACHE_SIZE"
  shows "\<exists>us e vs. map_set url \<lparr> html = markup, timestamp = now \<rparr> c = us @ e # vs \<and>
           setCachedResult url markup now c = us @ vs \<and>
           (\<forall>x\<in>set us. timestamp (snd e) < timestamp (snd x)) \<and>
           (\<forall>x\<in>set vs. timestamp (snd e) \<le> timestamp (snd x))"
proof -
  let ?c = "map_set url \<lparr> html = markup, timestamp = now \<rparr> c"
  let ?f = "\<lambda>e. timestamp (snd e)"
  let ?e = "hd (sort_key ?f ?c)"
  from over have "?c \<noteq> []" by auto
  from hd_sort_key [OF this, of ?f] obtain us vs where c: "?c = us @ ?e # vs"
    and us: "\<forall>x\<in>set us. ?f ?e < ?f x" and vs: "\<forall>x\<in>set vs. ?f ?e \<le> ?f x" by blast
  from d have "distinct (map fst ?c)" by (rule map_set_distinct)
  then have "distinct (map fst (us @ ?e # vs))" using c by simp
  then have "map_delete (fst ?e) (us @ ?e # vs) = us @ vs" by (rule map_delete_split)
  then have "map_delete (fst ?e) ?c = us @ vs" using c by simp
  with over have "setCachedResult url markup now c = us @ vs"
    by (simp add: setCachedResult_def Let_def)
  with c us vs show ?thesis by blast
qed

lemma setCachedResult_length:
  assumes "distinct (map fst c)" "length c \<le> MAX_CACHE_SIZE"
  shows "length (setCachedResult url markup now c) \<le> MAX_CACHE_SIZE"
proof (cases "length (map_set url \<lparr> html = markup, timestamp = now \<rparr> c) > MAX_CACHE_SIZE")
  case True
  from setCachedResult_evict [OF assms(1) True] obtain us e vs where
    "map_set url \<lparr> html = markup, timestamp = now \<rparr> c = us @ e # vs"
    "setCachedResult url markup now c = us @ vs" by blast
  then have "Suc (length (setCachedResult url markup now c)) =
      length (map_set url \<lparr> html = markup, timestamp = now \<rparr> c)" by simp
  also have "\<dots> \<le> Suc (length c)" by (rule map_set_length)
  finally show ?thesis using assms(2) by simp
next
  case False
  then show ?thesis by (simp add: setCachedResult_keep)
qed

lemma putAll_invariant:
  "distinct (map fst c) \<Longrightarrow> length c \<le> MAX_CACHE_SIZE \<Longrightarrow>
   distinct (map fst (putAll puts c)) \<and> length (putAll puts c) \<le> MAX_CACHE_SIZE"
proof (induction puts arbitrary: c)
  case Nil
  then show ?case by simp
next
  case (Cons p puts)
  obtain url markup now where p: "p = (url, markup, now)" by (cases p) auto
  from Cons.prems have "distinct (map fst (setCachedResult url markup now c))"
    "length (setCachedResult url markup now c) \<le> MAX_CACHE_SIZE"
    by (simp_all add: setCachedResult_distinct setCachedResult_length)
  from Cons.IH [OF this] show ?case by (simp add: p)
qed

text \<open>
  C7: after any sequence of puts on the empty cache there are at most fifty entries.
  A put that brings the count above fifty removes exactly one entry: one whose
  timestamp is the smallest, and among several of that timestamp the first in the
  map's order, every entry before it being strictly newer. A put that does not bring
  the count above fifty removes nothing.
\<close>

theorem setCachedResult_capacity:
  "MAX_CACHE_SIZE = 50 \<and>
   length (putAll puts []) \<le> MAX_CACHE_SIZE \<and>
   (length (map_set url \<lparr> html = markup, timestamp = now \<rparr> (putAll puts [])) > MAX_CACHE_SIZE \<longrightarrow>
      (\<exists>us e vs.
         map_set url \<lparr> html = markup, timestamp = now \<rparr> (putAll puts []) = us @ e # vs \<and>
         setCachedResult url markup now (putAll puts []) = us @ vs \<and>
         (\<forall>x\<in>set us. timestamp (snd e) < timestamp (snd x)) \<and>
         (\<forall>x\<in>set vs. timestamp (snd e) \<le> timestamp (snd x)))) \<and>
   (length (map_set url \<lparr> html = markup, timestamp = now \<rparr> (putAll puts [])) \<le> MAX_CACHE_SIZE \<longrightarrow>
      setCachedResult url markup now (putAll puts []) =
        map_set url \<lparr> html = markup, timestamp = now \<rparr> (putAll puts []))"
proof -
  have inv: "distinct (map fst (putAll puts [])) \<and> length (putAll puts []) \<le> MAX_CACHE_SIZE"
    by (rule putAll_invariant) simp_all
  have 1: "MAX_CACHE_SIZE = 50" by (simp add: MAX_CACHE_SIZE_def)
  from inv have 2: "length (putAll puts []) \<le> MAX_CACHE_SIZE" by blast
  from inv have 3: "length (map_set url \<lparr> html = markup, timestamp = now \<rparr> (putAll puts [])) > MAX_CACHE_SIZE \<longrightarrow>
      (\<exists>us e vs.
         map_set url \<lparr> html = markup, timestamp = now \<rparr> (putAll puts []) = us @ e # vs \<and>
         setCachedResult url markup now (putAll puts []) = us @ vs \<and>
         (\<forall>x\<in>set us. timestamp (snd e) < timestamp (snd x)) \<and>
         (\<forall>x\<in>set vs. timestamp (snd e) \<le> timestamp (snd x)))"
    using setCachedResult_evict by blast
  have 4: "length (map_set url \<lparr> html = markup, timestamp = now \<rparr> (putAll puts [])) \<le> MAX_CACHE_SIZE \<longrightarrow>
      setCachedResult url markup now (putAll puts []) =
        map_set url \<lparr> html = markup, timestamp = now \<rparr> (putAll puts [])"
    using setCachedResult_keep by blast
  from 1 2 3 4 show ?thesis by (intro conjI)
qed


text \<open>
  C7 on a cache filled by fifty puts of the same millisecond: the fifty-first put brings
  the count to fifty-one, and the entry put first is the one that goes.
\<close>

theorem setCachedResult_capacity_witness:
  "length (map_set [50] \<lparr> html = [], timestamp = 7 \<rparr> (putAll fiftyPuts [])) > MAX_CACHE_SIZE \<and>
   length (setCachedResult [50] [] 7 (putAll fiftyPuts [])) = 50 \<and>
   map fst (setCachedResult [50] [] 7 (putAll fiftyPuts [])) = map (\<lambda>i. [of_nat i]) [1..<51]"
proof -
  have l: "length (map_set [50] \<lparr> html = [], timestamp = 7 \<rparr> (putAll fiftyPuts [])) = 51"
    by code_simp
  then have over: "length (map_set [50] \<lparr> html = [], timestamp = 7 \<rparr> (putAll fiftyPuts [])) > MAX_CACHE_SIZE"
    by (simp add: MAX_CACHE_SIZE_def)
  from setCachedResult_capacity [of fiftyPuts "[50]" "[]" 7] over
  obtain us e vs where
    "map_set [50] \<lparr> html = [], timestamp = 7 \<rparr> (putAll fiftyPuts []) = us @ e # vs"
    "setCachedResult [50] [] 7 (putAll fiftyPuts []) = us @ vs" by blast
  with l have n: "length (setCachedResult [50] [] 7 (putAll fiftyPuts [])) = 50" by simp
  have k: "map fst (setCachedResult [50] [] 7 (putAll fiftyPuts [])) = map (\<lambda>i. [of_nat i]) [1..<51]"
    by code_simp
  from over n k show ?thesis by (intro conjI)
qed

section \<open>Properties of \<open>scrape\<close>: the cache\<close>

text \<open>
  C6, as stated: a call within the TTL of an earlier successful fetch of the same URL
  navigates nowhere. Not when fifty other URLs were fetched in between: the entry of the
  first has been evicted, and the call, 102 seconds after that fetch, makes a request.
\<close>

theorem scrape_refetches_after_eviction:
  "take 3 fiftyOneFetches =
     [Scrape [0] 10000 10000 10000, PageFetched 0 (js ''<html>'') 10000,
      Settles 0 (Resolved (js ''<html>''))] \<and>
   112000 - 10000 < CACHE_DURATION \<and>
   map_option (\<lambda>s. fst (scrape [0] 112000 112000 112000 s)) (run fiftyOneFetches initialState) =
     Some (Created 51)"
  by code_simp

lemma getCachedResult_Some:
  "getCachedResult url now c = Some h \<longleftrightarrow>
   (\<exists>e. map_of c url = Some e \<and> now - timestamp e < CACHE_DURATION \<and> html e = h)"
  by (auto simp: getCachedResult_def split: option.splits)

lemma scrape_hit:
  "getCachedResult url tc (cache s) = Some h \<Longrightarrow> h \<noteq> [] \<Longrightarrow>
   scrape url tc tr tu s = (FromCache h, s)"
  by (simp add: scrape_def)

lemma scrape_cache: "cache (snd (scrape url tc tr tu s)) = cache s"
  by (simp add: scrape_def Let_def split: option.split)

text \<open>The same bound in every state the module reaches: its cache is filled by puts only.\<close>

lemma step_cache_bounded:
  assumes "step e s = Some s'"
    and "distinct (map fst (cache s)) \<and> length (cache s) \<le> MAX_CACHE_SIZE"
  shows "distinct (map fst (cache s')) \<and> length (cache s') \<le> MAX_CACHE_SIZE"
proof (cases e)
  case (Scrape url tc tr tu)
  with assms(1) have "s' = snd (scrape url tc tr tu s)" by simp
  then have "cache s' = cache s" by (simp only: scrape_cache)
  with assms(2) show ?thesis by simp
next
  case (TimerFires p now)
  with assms(1) have "cache s' = cache s"
    by (auto simp: timerFires_def setPhase_def split: if_splits phase.splits)
  with assms(2) show ?thesis by simp
next
  case (PageFetched p markup now)
  with assms(1) have "cache s' = setCachedResult (req_url (requests s ! p)) markup now (cache s)"
    by (auto simp: pageFetched_def setPhase_def split: if_splits phase.splits)
  with assms(2) show ?thesis by (simp add: setCachedResult_distinct setCachedResult_length)
next
  case (Settles p out)
  with assms(1) have "cache s' = cache s"
    by (auto simp: settles_def setPhase_def Let_def split: if_splits)
  with assms(2) show ?thesis by simp
qed

lemma run_cache_bounded:
  "run es s = Some s' \<Longrightarrow>
   distinct (map fst (cache s)) \<and> length (cache s) \<le> MAX_CACHE_SIZE \<Longrightarrow>
   distinct (map fst (cache s')) \<and> length (cache s') \<le> MAX_CACHE_SIZE"
proof (induction es arbitrary: s)
  case Nil
  then show ?case by simp
next
  case (Cons e es)
  from Cons.prems(1) obtain s1 where 1: "step e s = Some s1" and 2: "run es s1 = Some s'"
    by (auto split: option.splits)
  from step_cache_bounded [OF 1 Cons.prems(2)] Cons.IH [OF 2] show ?case by blast
qed

lemma reachable_cache_bounded:
  "run es initialState = Some s \<Longrightarrow> length (cache s) \<le> MAX_CACHE_SIZE"
  using run_cache_bounded [of es initialState s] by (simp add: initialState_def)

section \<open>Properties of \<open>waitForRateLimit\<close>\<close>

text \<open>
  A caller that arrives less than the minimum interval after the last recorded release
  waits until exactly that interval has passed since it; any other caller does not wait.
\<close>

lemma waitForRateLimit_due:
  "waitForRateLimit now released =
     (if now - released < MIN_REQUEST_INTERVAL
      then Some (released + MIN_REQUEST_INTERVAL - now) else None)"
  by (simp add: waitForRateLimit_def Let_def)

text \<open>
  C4 where the code departs from it. Caller a is released at 10000. Caller b arrives at
  10100 and waits until 11500. Caller c arrives at 10200, while b is waiting: the recorded
  timestamp is still 10000, for b will record its release only when its timer ends, so c
  too waits until 11500. Both timers end then, and b and c enter \<^verbatim>\<open>scrapeInternal\<close> in the
  same millisecond.
\<close>

theorem waitForRateLimit_overlapping_callers:
  "map_option (\<lambda>s. (map req_phase (requests s), lastRequestTime s)) (run threeCalls initialState) =
     Some ([Fetching, AwaitingTimer 11500, AwaitingTimer 11500], 10000) \<and>
   map_option (\<lambda>s. (map req_phase (requests s), lastRequestTime s))
     (run (threeCalls @ twoTimers) initialState) =
     Some ([Fetching, Fetching, Fetching], 11500)"
  by code_simp

section \<open>Properties of \<open>scrape\<close>: deduplication\<close>

lemma map_of_map_set: "map_of (map_set k v m) = (map_of m)(k \<mapsto> v)"
  by (induction m) (auto simp: fun_eq_iff)

lemma map_of_map_delete: "map_of (map_delete k m) k' = (if k' = k then None else map_of m k')"
  by (induction m) (auto simp: map_delete_def)

lemma map_of_setCachedResult_other:
  assumes "k \<noteq> url"
  shows "map_of (setCachedResult k markup now c) url = None \<or>
         map_of (setCachedResult k markup now c) url = map_of c url"
proof -
  let ?c = "map_set k \<lparr> html = markup, timestamp = now \<rparr> c"
  have c: "map_of ?c url = map_of c url" using assms by (simp add: map_of_map_set)
  have "setCachedResult k markup now c = ?c \<or> (\<exists>k'. setCachedResult k markup now c = map_delete k' ?c)"
    by (auto simp: setCachedResult_def Let_def)
  then show ?thesis using c by (auto simp: map_of_map_delete)
qed

lemma map_req_url_update:
  "map req_url (xs[p := (xs ! p)\<lparr> req_phase := ph \<rparr>]) = map req_url xs"
proof (cases "p < length xs")
  case True
  have "map req_url (xs[p := (xs ! p)\<lparr> req_phase := ph \<rparr>]) = (map req_url xs)[p := req_url (xs ! p)]"
    by (simp add: map_update)
  also have "\<dots> = (map req_url xs)[p := map req_url xs ! p]" using True by simp
  also have "\<dots> = map req_url xs" by (rule list_update_id)
  finally show ?thesis .
next
  case False
  then have "length xs \<le> p" by (rule leI)
  then have "xs[p := (xs ! p)\<lparr> req_phase := ph \<rparr>] = xs" by (rule list_update_beyond)
  then show ?thesis by (rule arg_cong)
qed

lemma setPhase_fields [simp]:
  "cache (setPhase p ph s) = cache s"
  "lastRequestTime (setPhase p ph s) = lastRequestTime s"
  "pendingRequests (setPhase p ph s) = pendingRequests s"
  "length (requests (setPhase p ph s)) = length (requests s)"
  "map req_url (requests (setPhase p ph s)) = map req_url (requests s)"
  by (simp_all add: setPhase_def map_req_url_update)

lemma setPhase_url [simp]:
  "q < length (requests s) \<Longrightarrow> req_url (requests (setPhase p ph s) ! q) = req_url (requests s ! q)"
  by (cases "q = p") (simp_all add: setPhase_def)

lemma setPhase_phase [simp]:
  "q < length (requests s) \<Longrightarrow>
   req_phase (requests (setPhase p ph s) ! q) = (if q = p then ph else req_phase (requests s ! q))"
  by (simp add: setPhase_def nth_list_update)

text \<open>What a call of \<open>scrape\<close> does to the state: nothing, or one new request.\<close>

lemma scrape_effect:
  "snd (scrape url tc tr tu s) = s \<and> (\<forall>p. fst (scrape url tc tr tu s) \<noteq> Created p) \<or>
   map_of (pendingRequests s) url = None \<and>
   fst (scrape url tc tr tu s) = Created (length (requests s)) \<and>
   cache (snd (scrape url tc tr tu s)) = cache s \<and>
   pendingRequests (snd (scrape url tc tr tu s)) =
     map_set url (length (requests s)) (pendingRequests s) \<and>
   (\<exists>ph. requests (snd (scrape url tc tr tu s)) = requests s @ [\<lparr> req_url = url, req_phase = ph \<rparr>] \<and>
      (ph = Fetching \<or> (\<exists>due. ph = AwaitingTimer due)))"
  by (auto simp: scrape_def Let_def split: option.splits)


lemma unsettled_iff:
  "unsettled s p \<longleftrightarrow> p < length (requests s) \<and> (\<forall>out. req_phase (requests s ! p) \<noteq> Settled out)"
  by (auto simp: unsettled_def split: phase.splits)

lemma inFlight_unsettled: "inFlight s p \<Longrightarrow> unsettled s p"
  by (auto simp: inFlight_def unsettled_def split: phase.splits)

lemma pendingInvariant_initial: "pendingInvariant initialState"
  by (simp add: pendingInvariant_def unsettled_def initialState_def)

lemma pendingInvariant_scrape:
  assumes inv: "pendingInvariant s"
  shows "pendingInvariant (snd (scrape url tc tr tu s))"
proof -
  let ?s' = "snd (scrape url tc tr tu s)"
  from scrape_effect [of url tc tr tu s] consider
      (same) "?s' = s"
    | (new) ph where "map_of (pendingRequests s) url = None"
        "pendingRequests ?s' = map_set url (length (requests s)) (pendingRequests s)"
        "requests ?s' = requests s @ [\<lparr> req_url = url, req_phase = ph \<rparr>]"
    by blast
  then show ?thesis
  proof cases
    case same
    with inv show ?thesis by simp
  next
    case (new ph)
    note none = new(1) and pend = new(2) and reqs = new(3)
    show ?thesis
      unfolding pendingInvariant_def
    proof (intro allI impI)
      fix q assume q: "unsettled ?s' q"
      then have ql: "q < Suc (length (requests s))" by (simp add: unsettled_iff reqs)
      show "map_of (pendingRequests ?s') (req_url (requests ?s' ! q)) = Some q"
      proof (cases "q < length (requests s)")
        case True
        then have same: "requests ?s' ! q = requests s ! q" by (simp add: reqs nth_append)
        with q True have "unsettled s q" by (simp add: unsettled_iff)
        with inv have m: "map_of (pendingRequests s) (req_url (requests s ! q)) = Some q"
          by (simp add: pendingInvariant_def)
        with none have "req_url (requests s ! q) \<noteq> url" by auto
        with m show ?thesis by (simp add: pend same map_of_map_set)
      next
        case False
        with ql have "q = length (requests s)" by simp
        then show ?thesis by (simp add: pend reqs map_of_map_set)
      qed
    qed
  qed
qed

lemma timerFires_effect:
  assumes "timerFires p now s = Some s'"
  shows "p < length (requests s) \<and> (\<exists>due. req_phase (requests s ! p) = AwaitingTimer due \<and> due \<le> now) \<and>
         s' = setPhase p Fetching (s\<lparr> lastRequestTime := now \<rparr>)"
  using assms by (auto simp: timerFires_def split: if_splits phase.splits)

lemma pageFetched_effect:
  assumes "pageFetched p markup now s = Some s'"
  shows "p < length (requests s) \<and> req_phase (requests s ! p) = Fetching \<and>
         s' = setPhase p (Closing markup)
                (s\<lparr> cache := setCachedResult (req_url (requests s ! p)) markup now (cache s) \<rparr>)"
  using assms by (auto simp: pageFetched_def split: if_splits phase.splits)

lemma settles_effect:
  assumes "settles p out s = Some s'"
  shows "p < length (requests s) \<and>
         (req_phase (requests s ! p) = Fetching \<or> (\<exists>h. req_phase (requests s ! p) = Closing h)) \<and>
         s' = setPhase p (Settled out)
                (s\<lparr> pendingRequests := map_delete (req_url (requests s ! p)) (pendingRequests s) \<rparr>)"
  using assms by (auto simp: settles_def Let_def split: if_splits phase.splits)

lemma pendingInvariant_timerFires:
  assumes "timerFires p now s = Some s'" and inv: "pendingInvariant s"
  shows "pendingInvariant s'"
proof -
  from timerFires_effect [OF assms(1)] obtain due where p: "p < length (requests s)"
    and ph: "req_phase (requests s ! p) = AwaitingTimer due"
    and s': "s' = setPhase p Fetching (s\<lparr> lastRequestTime := now \<rparr>)" by blast
  show ?thesis unfolding pendingInvariant_def
  proof (intro allI impI)
    fix q assume "unsettled s' q"
    then have q: "q < length (requests s)" by (simp add: unsettled_iff s')
    with \<open>unsettled s' q\<close> ph have "unsettled s q"
      by (cases "q = p") (simp_all add: unsettled_iff s')
    with inv have "map_of (pendingRequests s) (req_url (requests s ! q)) = Some q"
      by (simp add: pendingInvariant_def)
    with q show "map_of (pendingRequests s') (req_url (requests s' ! q)) = Some q"
      by (simp add: s')
  qed
qed

lemma pendingInvariant_pageFetched:
  assumes "pageFetched p markup now s = Some s'" and inv: "pendingInvariant s"
  shows "pendingInvariant s'"
proof -
  from pageFetched_effect [OF assms(1)] have p: "p < length (requests s)"
    and ph: "req_phase (requests s ! p) = Fetching"
    and s': "s' = setPhase p (Closing markup)
                (s\<lparr> cache := setCachedResult (req_url (requests s ! p)) markup now (cache s) \<rparr>)"
    by blast+
  show ?thesis unfolding pendingInvariant_def
  proof (intro allI impI)
    fix q assume "unsettled s' q"
    then have q: "q < length (requests s)" by (simp add: unsettled_iff s')
    with \<open>unsettled s' q\<close> ph have "unsettled s q"
      by (cases "q = p") (simp_all add: unsettled_iff s')
    with inv have "map_of (pendingRequests s) (req_url (requests s ! q)) = Some q"
      by (simp add: pendingInvariant_def)
    with q show "map_of (pendingRequests s') (req_url (requests s' ! q)) = Some q"
      by (simp add: s')
  qed
qed

lemma pendingInvariant_settles:
  assumes "settles p out s = Some s'" and inv: "pendingInvariant s"
  shows "pendingInvariant s'"
proof -
  from settles_effect [OF assms(1)] have p: "p < length (requests s)"
    and ph: "req_phase (requests s ! p) = Fetching \<or> (\<exists>h. req_phase (requests s ! p) = Closing h)"
    and s': "s' = setPhase p (Settled out)
                (s\<lparr> pendingRequests := map_delete (req_url (requests s ! p)) (pendingRequests s) \<rparr>)"
    by blast+
  from p ph have "unsettled s p" by (auto simp: unsettled_iff)
  with inv have mp: "map_of (pendingRequests s) (req_url (requests s ! p)) = Some p"
    by (simp add: pendingInvariant_def)
  show ?thesis unfolding pendingInvariant_def
  proof (intro allI impI)
    fix q assume u: "unsettled s' q"
    then have q: "q < length (requests s)" by (simp add: unsettled_iff s')
    from u q have qp: "q \<noteq> p" by (auto simp: unsettled_iff s')
    with u q have "unsettled s q" by (simp add: unsettled_iff s')
    with inv have mq: "map_of (pendingRequests s) (req_url (requests s ! q)) = Some q"
      by (simp add: pendingInvariant_def)
    with mp qp have "req_url (requests s ! q) \<noteq> req_url (requests s ! p)" by auto
    with mq q show "map_of (pendingRequests s') (req_url (requests s' ! q)) = Some q"
      by (simp add: s' map_of_map_delete)
  qed
qed

lemma pendingInvariant_step:
  "step e s = Some s' \<Longrightarrow> pendingInvariant s \<Longrightarrow> pendingInvariant s'"
  by (cases e)
    (auto intro: pendingInvariant_scrape pendingInvariant_timerFires
       pendingInvariant_pageFetched pendingInvariant_settles)

lemma pendingInvariant_run:
  "run es s = Some s' \<Longrightarrow> pendingInvariant s \<Longrightarrow> pendingInvariant s'"
proof (induction es arbitrary: s)
  case Nil
  then show ?case by simp
next
  case (Cons e es)
  from Cons.prems(1) obtain s1 where 1: "step e s = Some s1" and 2: "run es s1 = Some s'"
    by (auto split: option.splits)
  from pendingInvariant_step [OF 1 Cons.prems(2)] Cons.IH [OF 2] show ?case by blast
qed


lemma step_length: "step e s = Some s' \<Longrightarrow> length (requests s) \<le> length (requests s')"
proof (cases e)
  case (Scrape url tc tr tu)
  assume "step e s = Some s'"
  with Scrape have "s' = snd (scrape url tc tr tu s)" by simp
  with scrape_effect [of url tc tr tu s] show ?thesis by auto
next
  case (TimerFires p now)
  assume "step e s = Some s'"
  with TimerFires timerFires_effect [of p now s s'] show ?thesis by simp
next
  case (PageFetched p markup now)
  assume "step e s = Some s'"
  with PageFetched pageFetched_effect [of p markup now s s'] show ?thesis by simp
next
  case (Settles p out)
  assume "step e s = Some s'"
  with Settles settles_effect [of p out s s'] show ?thesis by simp
qed

lemma map_of_setCachedResult_same:
  "map_of (setCachedResult k markup now c) k = None \<or>
   map_of (setCachedResult k markup now c) k = Some \<lparr> html = markup, timestamp = now \<rparr>"
proof -
  let ?c = "map_set k \<lparr> html = markup, timestamp = now \<rparr> c"
  have c: "map_of ?c k = Some \<lparr> html = markup, timestamp = now \<rparr>" by (simp add: map_of_map_set)
  have "setCachedResult k markup now c = ?c \<or> (\<exists>k'. setCachedResult k markup now c = map_delete k' ?c)"
    by (auto simp: setCachedResult_def Let_def)
  then show ?thesis
  proof (elim disjE exE)
    assume "setCachedResult k markup now c = ?c"
    with c show ?thesis by simp
  next
    fix k' assume "setCachedResult k markup now c = map_delete k' ?c"
    with c show ?thesis by (cases "k = k'") (simp_all add: map_of_map_delete)
  qed
qed

lemma step_back_unsettled:
  assumes "step e s = Some s'" "p < length (requests s)" "unsettled s' p"
  shows "unsettled s p"
proof (cases e)
  case (Scrape url tc tr tu)
  with assms(1) have s': "s' = snd (scrape url tc tr tu s)" by simp
  from scrape_effect [of url tc tr tu s] have
    "requests s' = requests s \<or> (\<exists>r. requests s' = requests s @ [r])"
    unfolding s' by auto
  with assms(2) have "requests s' ! p = requests s ! p" by (auto simp: nth_append)
  with assms(2,3) show ?thesis by (simp add: unsettled_iff)
next
  case (TimerFires q now)
  with assms(1) timerFires_effect [of q now s s'] obtain due where
    "req_phase (requests s ! q) = AwaitingTimer due"
    "s' = setPhase q Fetching (s\<lparr> lastRequestTime := now \<rparr>)" by auto
  with assms(2,3) show ?thesis by (cases "p = q") (simp_all add: unsettled_iff)
next
  case (PageFetched q markup now)
  with assms(1) pageFetched_effect [of q markup now s s'] have
    "req_phase (requests s ! q) = Fetching"
    "s' = setPhase q (Closing markup)
            (s\<lparr> cache := setCachedResult (req_url (requests s ! q)) markup now (cache s) \<rparr>)"
    by auto
  with assms(2,3) show ?thesis by (cases "p = q") (simp_all add: unsettled_iff)
next
  case (Settles q out)
  with assms(1) settles_effect [of q out s s'] have
    "s' = setPhase q (Settled out)
            (s\<lparr> pendingRequests := map_delete (req_url (requests s ! q)) (pendingRequests s) \<rparr>)"
    by auto
  with assms(2,3) show ?thesis by (cases "p = q") (simp_all add: unsettled_iff)
qed

lemma run_back_unsettled:
  "run es s = Some s' \<Longrightarrow> p < length (requests s) \<Longrightarrow> unsettled s' p \<Longrightarrow> unsettled s p"
proof (induction es arbitrary: s)
  case Nil
  then show ?case by simp
next
  case (Cons e es)
  from Cons.prems(1) obtain s1 where 1: "step e s = Some s1" and 2: "run es s1 = Some s'"
    by (auto split: option.splits)
  from step_length [OF 1] Cons.prems(2) have "p < length (requests s1)" by simp
  from Cons.IH [OF 2 this Cons.prems(3)] have "unsettled s1 p" .
  with 1 Cons.prems(2) show ?case by (rule step_back_unsettled)
qed

lemma requestsFor_setPhase [simp]: "requestsFor (setPhase q ph s) url = requestsFor s url"
  by (simp add: requestsFor_def)

lemma sharingI:
  assumes "pendingInvariant s" "p < length (requests s)" "req_url (requests s ! p) = url"
    "map_of (cache s) url = None \<or> map_of (cache s) url = e0 \<or>
      (\<exists>h t. req_phase (requests s ! p) = Closing h \<and>
             map_of (cache s) url = Some \<lparr> html = h, timestamp = t \<rparr>)"
    "requestsFor s url = n"
  shows "sharing url p e0 n s"
  unfolding sharing_def using assms by blast

lemma sharing_step:
  assumes sh: "sharing url p e0 n s" and st: "step e s = Some s'" and un: "unsettled s' p"
  shows "sharing url p e0 n s'"
proof -
  from sh have inv: "pendingInvariant s" and pl: "p < length (requests s)"
    and pu: "req_url (requests s ! p) = url"
    and ce: "map_of (cache s) url = None \<or> map_of (cache s) url = e0 \<or>
      (\<exists>h t. req_phase (requests s ! p) = Closing h \<and>
             map_of (cache s) url = Some \<lparr> html = h, timestamp = t \<rparr>)"
    and rn: "requestsFor s url = n" by (simp_all add: sharing_def)
  from st inv have inv': "pendingInvariant s'" by (rule pendingInvariant_step)
  from st pl un have un0: "unsettled s p" by (rule step_back_unsettled)
  with inv pu have mp: "map_of (pendingRequests s) url = Some p"
    by (auto simp: pendingInvariant_def)
  show ?thesis
  proof (cases e)
    case (Scrape u tc tr tu)
    with st have s': "s' = snd (scrape u tc tr tu s)" by simp
    from scrape_effect [of u tc tr tu s] consider
        (same) "s' = s"
      | (new) ph where "map_of (pendingRequests s) u = None" "cache s' = cache s"
          "requests s' = requests s @ [\<lparr> req_url = u, req_phase = ph \<rparr>]"
      unfolding s' by blast
    then show ?thesis
    proof cases
      case same
      with sh show ?thesis by simp
    next
      case (new ph)
      from new(1) mp have "u \<noteq> url" by auto
      with new(3) rn have 3: "requestsFor s' url = n" by (simp add: requestsFor_def)
      from new(3) pl have 1: "p < length (requests s')" and same: "requests s' ! p = requests s ! p"
        by (simp_all add: nth_append)
      from same pu have 2: "req_url (requests s' ! p) = url" by simp
      from ce have 4: "map_of (cache s') url = None \<or> map_of (cache s') url = e0 \<or>
        (\<exists>h t. req_phase (requests s' ! p) = Closing h \<and>
             map_of (cache s') url = Some \<lparr> html = h, timestamp = t \<rparr>)"
        by (simp only: same new(2))
      from inv' 1 2 4 3 show ?thesis by (rule sharingI)
    qed
  next
    case (TimerFires q now)
    with st timerFires_effect [of q now s s'] obtain due where
      qa: "req_phase (requests s ! q) = AwaitingTimer due"
      and s': "s' = setPhase q Fetching (s\<lparr> lastRequestTime := now \<rparr>)" by auto
    from pl have 1: "p < length (requests s')" by (simp add: s')
    from pl pu have 2: "req_url (requests s' ! p) = url" by (simp add: s')
    from rn have 3: "requestsFor s' url = n" by (simp add: s' requestsFor_def)
    have c: "cache s' = cache s" by (simp add: s')
    have 4: "map_of (cache s') url = None \<or> map_of (cache s') url = e0 \<or>
        (\<exists>h t. req_phase (requests s' ! p) = Closing h \<and>
             map_of (cache s') url = Some \<lparr> html = h, timestamp = t \<rparr>)"
    proof (cases "q = p")
      case True
      with qa have "\<forall>h. req_phase (requests s ! p) \<noteq> Closing h" by simp
      with ce show ?thesis unfolding c by blast
    next
      case False
      with pl have "req_phase (requests s' ! p) = req_phase (requests s ! p)" by (simp add: s')
      with ce show ?thesis unfolding c by simp
    qed
    from inv' 1 2 4 3 show ?thesis by (rule sharingI)
  next
    case (PageFetched q markup now)
    with st pageFetched_effect [of q markup now s s'] have ql: "q < length (requests s)"
      and qf: "req_phase (requests s ! q) = Fetching"
      and s': "s' = setPhase q (Closing markup)
            (s\<lparr> cache := setCachedResult (req_url (requests s ! q)) markup now (cache s) \<rparr>)"
      by auto
    from pl have 1: "p < length (requests s')" by (simp add: s')
    from pl pu have 2: "req_url (requests s' ! p) = url" by (simp add: s')
    from rn have 3: "requestsFor s' url = n" by (simp add: s' requestsFor_def)
    have c: "cache s' = setCachedResult (req_url (requests s ! q)) markup now (cache s)"
      by (simp add: s')
    have 4: "map_of (cache s') url = None \<or> map_of (cache s') url = e0 \<or>
        (\<exists>h t. req_phase (requests s' ! p) = Closing h \<and>
             map_of (cache s') url = Some \<lparr> html = h, timestamp = t \<rparr>)"
    proof (cases "q = p")
      case True
      from map_of_setCachedResult_same [of url markup now "cache s"] pu True
      have "map_of (cache s') url = None \<or>
            map_of (cache s') url = Some \<lparr> html = markup, timestamp = now \<rparr>"
        by (simp add: c)
      moreover from pl True have "req_phase (requests s' ! p) = Closing markup" by (simp add: s')
      ultimately show ?thesis by blast
    next
      case False
      from ql qf have "unsettled s q" by (simp add: unsettled_iff)
      with inv have "map_of (pendingRequests s) (req_url (requests s ! q)) = Some q"
        by (simp add: pendingInvariant_def)
      with mp False have "req_url (requests s ! q) \<noteq> url" by auto
      from map_of_setCachedResult_other [OF this, of markup now "cache s"]
      have "map_of (cache s') url = None \<or> map_of (cache s') url = map_of (cache s) url"
        by (simp add: c)
      moreover from pl False have "req_phase (requests s' ! p) = req_phase (requests s ! p)"
        by (simp add: s')
      ultimately show ?thesis using ce by metis
    qed
    from inv' 1 2 4 3 show ?thesis by (rule sharingI)
  next
    case (Settles q out)
    with st settles_effect [of q out s s'] have
      s': "s' = setPhase q (Settled out)
            (s\<lparr> pendingRequests := map_delete (req_url (requests s ! q)) (pendingRequests s) \<rparr>)"
      by auto
    from pl have 1: "p < length (requests s')" by (simp add: s')
    from pl pu have 2: "req_url (requests s' ! p) = url" by (simp add: s')
    from rn have 3: "requestsFor s' url = n" by (simp add: s' requestsFor_def)
    have c: "cache s' = cache s" by (simp add: s')
    from un pl have "q \<noteq> p" by (auto simp: unsettled_iff s')
    with pl have "req_phase (requests s' ! p) = req_phase (requests s ! p)" by (simp add: s')
    with ce have 4: "map_of (cache s') url = None \<or> map_of (cache s') url = e0 \<or>
        (\<exists>h t. req_phase (requests s' ! p) = Closing h \<and>
             map_of (cache s') url = Some \<lparr> html = h, timestamp = t \<rparr>)"
      unfolding c by simp
    from inv' 1 2 4 3 show ?thesis by (rule sharingI)
  qed
qed

lemma sharing_run:
  "run es s = Some s' \<Longrightarrow> sharing url p e0 n s \<Longrightarrow> unsettled s' p \<Longrightarrow> sharing url p e0 n s'"
proof (induction es arbitrary: s)
  case Nil
  then show ?case by simp
next
  case (Cons e es)
  from Cons.prems(1) obtain s1 where 1: "step e s = Some s1" and 2: "run es s1 = Some s'"
    by (auto split: option.splits)
  from Cons.prems(2) have "p < length (requests s)" by (simp add: sharing_def)
  with step_length [OF 1] have "p < length (requests s1)" by simp
  from run_back_unsettled [OF 2 this Cons.prems(3)] have "unsettled s1 p" .
  from sharing_step [OF Cons.prems(2) 1 this] have "sharing url p e0 n s1" .
  from Cons.IH [OF 2 this Cons.prems(3)] show ?case .
qed

lemma scrape_Created_miss:
  "fst (scrape url tc tr tu s) = Created p \<Longrightarrow>
   getCachedResult url tc (cache s) = None \<or> getCachedResult url tc (cache s) = Some []"
  by (auto simp: scrape_def Let_def split: if_splits option.splits)

lemma getCachedResult_miss_later:
  assumes "getCachedResult url tc1 c0 = None \<or> getCachedResult url tc1 c0 = Some []"
    and "tc1 \<le> tc2"
    and "map_of c url = None \<or> map_of c url = map_of c0 url"
  shows "getCachedResult url tc2 c = None \<or> getCachedResult url tc2 c = Some []"
  using assms by (auto simp: getCachedResult_def split: option.splits if_splits)

lemma getCachedResult_entry:
  "map_of c url = Some \<lparr> html = h, timestamp = t \<rparr> \<Longrightarrow>
   getCachedResult url tc c = None \<or> getCachedResult url tc c = Some h"
  by (simp add: getCachedResult_def)

lemma scrape_Existing:
  assumes "getCachedResult url tc (cache s) = None \<or> getCachedResult url tc (cache s) = Some []"
    and "map_of (pendingRequests s) url = Some p"
  shows "scrape url tc tr tu s = (Existing p, s)"
  using assms by (auto simp: scrape_def)

lemma scrape_FromCache:
  assumes "getCachedResult url tc (cache s) = Some h" "h \<noteq> []"
  shows "scrape url tc tr tu s = (FromCache h, s)"
  using assms by (simp add: scrape_def)

text \<open>
  C1, as stated: two calls for one URL, the second made before the first has completed,
  receive the same outcome. Not always. \<^verbatim>\<open>scrapeInternal\<close> caches the markup before it closes
  the page, and the cache is asked before \<^verbatim>\<open>pendingRequests\<close>: a second call made while the
  page is being closed is served from the cache, and when closing the page then fails,
  the first caller's promise is rejected.
\<close>

theorem scrape_outcomes_differ:
  "fst (scrape (js ''u'') 10000 10000 10000 initialState) = Created 0 \<and>
   map_option (\<lambda>s. (received s (Created 0), fst (scrape (js ''u'') 10500 10500 10500 s)))
     (run [Scrape (js ''u'') 10000 10000 10000, PageFetched 0 (js ''<html>'') 10400] initialState) =
     Some (None, FromCache (js ''<html>'')) \<and>
   map_option (\<lambda>s. (received s (Created 0), received s (FromCache (js ''<html>''))))
     (run [Scrape (js ''u'') 10000 10000 10000, PageFetched 0 (js ''<html>'') 10400,
           Scrape (js ''u'') 10500 10500 10500, Settles 0 (Rejected (js ''Target closed''))]
        initialState) =
     Some (Some (Rejected (js ''Target closed'')), Some (Resolved (js ''<html>'')))"
  by code_simp

text \<open>
  C1, amended: let a call of \<open>scrape\<close> for a URL make a request, in any state the module
  can reach by the steps above (\<^verbatim>\<open>clearCache\<close> is not one of them). A second call for the URL, made no earlier by the clock and before the
  promise of that request is settled, whatever else has happened in between, changes
  nothing, so that one request, hence one navigation, has been made for the URL since
  before the first call. While the request is in flight (waiting for the rate limiter or
  fetching) the second caller is handed the promise of the first, and both receive what
  that one promise settles with. Otherwise the request has cached its markup and is
  closing the page: the second caller is handed that promise or that very markup.
\<close>

theorem scrape_deduplicates:
  assumes "run es initialState = Some s0"
    and "scrape url tc1 tr1 tu1 s0 = (Created p, s1)"
    and "run es' s1 = Some s2"
    and "unsettled s2 p"
    and "tc1 \<le> tc2"
  shows "(inFlight s2 p \<longrightarrow> scrape url tc2 tr2 tu2 s2 = (Existing p, s2)) \<and>
         (scrape url tc2 tr2 tu2 s2 = (Existing p, s2) \<or>
          (\<exists>h. req_phase (requests s2 ! p) = Closing h \<and>
               scrape url tc2 tr2 tu2 s2 = (FromCache h, s2))) \<and>
         requestsFor s2 url = requestsFor s0 url + 1 \<and>
         (\<forall>s3. received s3 (Existing p) = received s3 (Created p))"
proof -
  from assms(1) pendingInvariant_initial have inv0: "pendingInvariant s0"
    by (rule pendingInvariant_run)
  from assms(2) have f: "fst (scrape url tc1 tr1 tu1 s0) = Created p"
    and s1: "s1 = snd (scrape url tc1 tr1 tu1 s0)" by simp_all
  from f have miss: "getCachedResult url tc1 (cache s0) = None \<or>
      getCachedResult url tc1 (cache s0) = Some []" by (rule scrape_Created_miss)
  from scrape_effect [of url tc1 tr1 tu1 s0] f obtain ph where
    p: "p = length (requests s0)" and c1: "cache s1 = cache s0"
    and r1: "requests s1 = requests s0 @ [\<lparr> req_url = url, req_phase = ph \<rparr>]"
    unfolding s1 by auto
  from inv0 have inv1: "pendingInvariant s1" unfolding s1 by (rule pendingInvariant_scrape)
  from r1 have "requestsFor s1 url = requestsFor s0 url + 1" by (simp add: requestsFor_def)
  with inv1 p c1 r1 have "sharing url p (map_of (cache s0) url) (requestsFor s0 url + 1) s1"
    by (simp add: sharing_def)
  from sharing_run [OF assms(3) this assms(4)]
  have sh: "sharing url p (map_of (cache s0) url) (requestsFor s0 url + 1) s2" .
  then have inv2: "pendingInvariant s2" and pu: "req_url (requests s2 ! p) = url"
    and ce: "map_of (cache s2) url = None \<or> map_of (cache s2) url = map_of (cache s0) url \<or>
      (\<exists>h t. req_phase (requests s2 ! p) = Closing h \<and>
             map_of (cache s2) url = Some \<lparr> html = h, timestamp = t \<rparr>)"
    and n: "requestsFor s2 url = requestsFor s0 url + 1" by (simp_all add: sharing_def)
  from assms(4) inv2 pu have mp: "map_of (pendingRequests s2) url = Some p"
    by (auto simp: pendingInvariant_def)
  have old: "scrape url tc2 tr2 tu2 s2 = (Existing p, s2)"
    if "map_of (cache s2) url = None \<or> map_of (cache s2) url = map_of (cache s0) url"
  proof -
    from miss assms(5) that have "getCachedResult url tc2 (cache s2) = None \<or>
      getCachedResult url tc2 (cache s2) = Some []" by (rule getCachedResult_miss_later)
    from this mp show ?thesis by (rule scrape_Existing)
  qed
  have new: "scrape url tc2 tr2 tu2 s2 = (Existing p, s2) \<or>
        scrape url tc2 tr2 tu2 s2 = (FromCache h, s2)"
    if "map_of (cache s2) url = Some \<lparr> html = h, timestamp = t \<rparr>" for h t
  proof -
    from getCachedResult_entry [OF that, of tc2]
    consider "getCachedResult url tc2 (cache s2) = None \<or>
        getCachedResult url tc2 (cache s2) = Some []"
      | "getCachedResult url tc2 (cache s2) = Some h" "h \<noteq> []"
      by (cases "h = []") auto
    then show ?thesis
    proof cases
      case 1
      from this mp have "scrape url tc2 tr2 tu2 s2 = (Existing p, s2)" by (rule scrape_Existing)
      then show ?thesis by blast
    next
      case 2
      then have "scrape url tc2 tr2 tu2 s2 = (FromCache h, s2)" by (rule scrape_FromCache)
      then show ?thesis by blast
    qed
  qed
  have a: "inFlight s2 p \<longrightarrow> scrape url tc2 tr2 tu2 s2 = (Existing p, s2)"
  proof
    assume "inFlight s2 p"
    then have "\<forall>h. req_phase (requests s2 ! p) \<noteq> Closing h"
      by (auto simp: inFlight_def split: phase.splits)
    with ce have "map_of (cache s2) url = None \<or> map_of (cache s2) url = map_of (cache s0) url"
      by blast
    then show "scrape url tc2 tr2 tu2 s2 = (Existing p, s2)" by (rule old)
  qed
  have b: "scrape url tc2 tr2 tu2 s2 = (Existing p, s2) \<or>
          (\<exists>h. req_phase (requests s2 ! p) = Closing h \<and>
               scrape url tc2 tr2 tu2 s2 = (FromCache h, s2))"
    using ce old new by blast
  have c: "\<forall>s3. received s3 (Existing p) = received s3 (Created p)"
    by (simp add: received_def)
  from a b n c show ?thesis by (intro conjI)
qed

text \<open>
  The amended C1 on two calls for \<^verbatim>\<open>b\<close>, 1.6 seconds apart, with a call for \<^verbatim>\<open>c\<close> and the end
  of its wait in between.
\<close>

theorem scrape_deduplicates_witness:
  "run [] initialState = Some initialState \<and>
   scrape (js ''b'') 10000 10000 10000 initialState = (Created 0, afterFirstCall) \<and>
   (\<exists>s2. run [Scrape (js ''c'') 10100 10100 10100, TimerFires 1 11500] afterFirstCall = Some s2 \<and>
      inFlight s2 0 \<and>
      scrape (js ''b'') 11600 11600 11600 s2 = (Existing 0, s2) \<and>
      requestsFor s2 (js ''b'') = 1)"
proof -
  have h1: "run [] initialState = Some initialState" by simp
  have "fst (scrape (js ''b'') 10000 10000 10000 initialState) = Created 0" by code_simp
  then have h2: "scrape (js ''b'') 10000 10000 10000 initialState = (Created 0, afterFirstCall)"
    by (simp add: afterFirstCall_def prod_eq_iff)
  have "map_option (\<lambda>s. inFlight s 0)
      (run [Scrape (js ''c'') 10100 10100 10100, TimerFires 1 11500] afterFirstCall) = Some True"
    by code_simp
  then obtain s2 where
    h3: "run [Scrape (js ''c'') 10100 10100 10100, TimerFires 1 11500] afterFirstCall = Some s2"
    and h4: "inFlight s2 0" by auto
  from h4 have h4': "unsettled s2 0" by (rule inFlight_unsettled)
  have h5: "(10000::int) \<le> 11600" by simp
  have z: "requestsFor initialState (js ''b'') = 0" by (simp add: requestsFor_def initialState_def)
  from scrape_deduplicates [OF h1 h2 h3 h4' h5, of 11600 11600] z h4
  have "scrape (js ''b'') 11600 11600 11600 s2 = (Existing 0, s2) \<and> requestsFor s2 (js ''b'') = 1"
    by simp
  with h1 h2 h3 h4 show ?thesis by blast
qed

section \<open>Properties of \<open>scrape\<close>: the cache after a fetch\<close>

lemma entryKept_map_of:
  assumes "entryKept url e n c"
  shows "map_of c url = Some e"
proof -
  from assms obtain us vs where c: "c = us @ (url, e) # vs" and d: "distinct (map fst c)"
    by (auto simp: entryKept_def)
  from d have "url \<notin> fst ` set us" unfolding c by auto
  then have "map_of us url = None" by (simp add: map_of_eq_None_iff)
  then show ?thesis unfolding c by (simp add: map_add_def)
qed

lemma filter_map_set_length:
  "length (filter P (map_set k v m)) \<le> Suc (length (filter P m))"
  by (induction m) auto

lemma map_set_append_in:
  "k \<in> fst ` set us \<Longrightarrow> map_set k v (us @ ys) = map_set k v us @ ys"
  by (induction us) auto

lemma map_set_append_notin:
  "k \<notin> fst ` set us \<Longrightarrow> map_set k v (us @ ys) = us @ map_set k v ys"
  by (induction us) auto

lemma entryKept_map_set:
  assumes k: "entryKept url e n c" and ne: "k \<noteq> url"
  shows "entryKept url e (Suc n) (map_set k v c)"
proof -
  let ?P = "\<lambda>x. timestamp e < timestamp (snd x)"
  let ?Q = "\<lambda>x. timestamp e \<le> timestamp (snd x)"
  from k obtain us vs where c: "c = us @ (url, e) # vs" and d: "distinct (map fst c)"
    and n: "length (filter ?P us) + length (filter ?Q vs) \<le> n"
    by (auto simp: entryKept_def)
  from d have d': "distinct (map fst (map_set k v c))" by (rule map_set_distinct)
  have "\<exists>us' vs'. map_set k v c = us' @ (url, e) # vs' \<and>
      length (filter ?P us') + length (filter ?Q vs') \<le> Suc n"
  proof (cases "k \<in> fst ` set us")
    case True
    then have "map_set k v c = map_set k v us @ (url, e) # vs"
      unfolding c by (rule map_set_append_in)
    moreover have "length (filter ?P (map_set k v us)) \<le> Suc (length (filter ?P us))"
      by (rule filter_map_set_length)
    with n have "length (filter ?P (map_set k v us)) + length (filter ?Q vs) \<le> Suc n" by simp
    ultimately show ?thesis by blast
  next
    case False
    then have "map_set k v c = us @ map_set k v ((url, e) # vs)"
      unfolding c by (rule map_set_append_notin)
    with ne have "map_set k v c = us @ (url, e) # map_set k v vs" by simp
    moreover have "length (filter ?Q (map_set k v vs)) \<le> Suc (length (filter ?Q vs))"
      by (rule filter_map_set_length)
    with n have "length (filter ?P us) + length (filter ?Q (map_set k v vs)) \<le> Suc n" by simp
    ultimately show ?thesis by blast
  qed
  with d' show ?thesis unfolding entryKept_def by blast
qed

lemma distinct_keys_split:
  assumes "distinct (map fst (as @ x # bs))" "as @ x # bs = us @ x # vs"
  shows "as = us \<and> bs = vs"
proof -
  from assms(1) have "distinct (as @ x # bs)" by (simp only: distinct_map)
  then have a: "x \<notin> set as" by auto
  from \<open>distinct (as @ x # bs)\<close> assms(2) have "distinct (us @ x # vs)" by simp
  then have u: "x \<notin> set us" by auto
  have t: "takeWhile (\<lambda>y. y \<noteq> x) (zs @ x # ws) = zs" if "x \<notin> set zs" for zs ws
  proof -
    from that have "\<And>y. y \<in> set zs \<Longrightarrow> y \<noteq> x" by auto
    then have "takeWhile (\<lambda>y. y \<noteq> x) (zs @ x # ws) = zs @ takeWhile (\<lambda>y. y \<noteq> x) (x # ws)"
      by (rule takeWhile_append2)
    then show ?thesis by simp
  qed
  from t [OF a, of bs] t [OF u, of vs] assms(2) have "as = us" by simp
  with assms(2) show ?thesis by simp
qed

lemma filter_filter_length:
  "length (filter P (filter Q xs)) \<le> length (filter P xs)"
  by (induction xs) auto

lemma entryKept_evict:
  assumes k: "entryKept url e n c" and n: "n < MAX_CACHE_SIZE"
    and over: "length c > MAX_CACHE_SIZE"
  shows "entryKept url e n (map_delete (fst (hd (sort_key (\<lambda>x. timestamp (snd x)) c))) c)"
proof -
  let ?P = "\<lambda>x. timestamp e < timestamp (snd x)"
  let ?Q = "\<lambda>x. timestamp e \<le> timestamp (snd x)"
  let ?f = "\<lambda>x. timestamp (snd x)"
  let ?h = "hd (sort_key ?f c)"
  from k obtain us vs where c: "c = us @ (url, e) # vs" and d: "distinct (map fst c)"
    and le: "length (filter ?P us) + length (filter ?Q vs) \<le> n"
    by (auto simp: entryKept_def)
  from over have "c \<noteq> []" by auto
  from hd_sort_key [OF this, of ?f] obtain as bs where h: "c = as @ ?h # bs"
    and as: "\<forall>x\<in>set as. ?f ?h < ?f x" and bs: "\<forall>x\<in>set bs. ?f ?h \<le> ?f x" by blast
  have hu: "fst ?h \<noteq> url"
  proof
    assume eq: "fst ?h = url"
    from h have "?h \<in> set c" by (metis in_set_conv_decomp)
    moreover from c have "(url, e) \<in> set c" by simp
    ultimately have "?h = (url, e)" using d eq
      by (metis eq_key_imp_eq_value prod.collapse)
    with h have h': "c = as @ (url, e) # bs" by simp
    from d have "distinct (map fst (as @ (url, e) # bs))" using h' by simp
    moreover from h' c have "as @ (url, e) # bs = us @ (url, e) # vs" by simp
    ultimately have "as = us \<and> bs = vs" by (rule distinct_keys_split)
    then have "as = us" "bs = vs" by simp_all
    with as bs \<open>?h = (url, e)\<close> have "\<forall>x\<in>set us. ?P x" "\<forall>x\<in>set vs. ?Q x" by simp_all
    then have "filter ?P us = us" "filter ?Q vs = vs" by (simp_all add: filter_id_conv)
    with le have "length us + length vs \<le> n" by simp
    moreover have "length c = Suc (length us + length vs)" unfolding c by simp
    ultimately show False using over n by simp
  qed
  have "map_delete (fst ?h) c =
      filter (\<lambda>x. fst x \<noteq> fst ?h) us @ (url, e) # filter (\<lambda>x. fst x \<noteq> fst ?h) vs"
    using hu unfolding map_delete_def by (subst c) auto
  moreover have "length (filter ?P (filter (\<lambda>x. fst x \<noteq> fst ?h) us)) \<le> length (filter ?P us)"
    "length (filter ?Q (filter (\<lambda>x. fst x \<noteq> fst ?h) vs)) \<le> length (filter ?Q vs)"
    by (rule filter_filter_length)+
  with le have "length (filter ?P (filter (\<lambda>x. fst x \<noteq> fst ?h) us)) +
      length (filter ?Q (filter (\<lambda>x. fst x \<noteq> fst ?h) vs)) \<le> n" by simp
  moreover from d have "distinct (map fst (map_delete (fst ?h) c))" by (rule map_delete_distinct)
  ultimately show ?thesis unfolding entryKept_def by blast
qed

lemma entryKept_evicting:
  assumes "entryKept url e n c" "n < MAX_CACHE_SIZE"
  shows "entryKept url e n
           (if length c > MAX_CACHE_SIZE
            then map_delete (fst (hd (sort_key (\<lambda>x. timestamp (snd x)) c))) c else c)"
  using assms entryKept_evict by simp

lemma setCachedResult_unfold:
  "setCachedResult url markup now c =
     (if length (map_set url \<lparr> html = markup, timestamp = now \<rparr> c) > MAX_CACHE_SIZE
      then map_delete (fst (hd (sort_key (\<lambda>x. timestamp (snd x))
                 (map_set url \<lparr> html = markup, timestamp = now \<rparr> c))))
             (map_set url \<lparr> html = markup, timestamp = now \<rparr> c)
      else map_set url \<lparr> html = markup, timestamp = now \<rparr> c)"
  by (simp add: setCachedResult_def Let_def)

text \<open>A put for another URL sets at most one entry behind the entry of \<open>url\<close>.\<close>

lemma entryKept_setCachedResult:
  assumes "entryKept url e n c" "k \<noteq> url" "Suc n < MAX_CACHE_SIZE"
  shows "entryKept url e (Suc n) (setCachedResult k markup now c)"
proof -
  from assms(1,2) have "entryKept url e (Suc n) (map_set k \<lparr> html = markup, timestamp = now \<rparr> c)"
    by (rule entryKept_map_set)
  from entryKept_evicting [OF this assms(3)] show ?thesis by (simp only: setCachedResult_unfold)
qed

lemma map_set_split:
  "\<exists>us vs. map_set k v m = us @ (k, v) # vs \<and> set us \<subseteq> set m \<and> set vs \<subseteq> set m"
proof (induction m)
  case Nil
  have "map_set k v [] = [] @ (k, v) # [] \<and> set [] \<subseteq> set ([] :: ('a \<times> 'b) list) \<and>
    set [] \<subseteq> set ([] :: ('a \<times> 'b) list)" by simp
  then show ?case by blast
next
  case (Cons x m)
  show ?case
  proof (cases "fst x = k")
    case True
    then have "map_set k v (x # m) = [] @ (k, v) # m \<and> set [] \<subseteq> set (x # m) \<and> set m \<subseteq> set (x # m)"
      by auto
    then show ?thesis by blast
  next
    case False
    from Cons obtain us vs where "map_set k v m = us @ (k, v) # vs" "set us \<subseteq> set m" "set vs \<subseteq> set m"
      by blast
    with False have "map_set k v (x # m) = (x # us) @ (k, v) # vs \<and> set (x # us) \<subseteq> set (x # m) \<and>
      set vs \<subseteq> set (x # m)" by auto
    then show ?thesis by blast
  qed
qed

text \<open>
  A put at a clock reading later than every timestamp in the cache leaves its entry in
  the cache, with no entry behind it.
\<close>

lemma entryKept_put:
  assumes d: "distinct (map fst c)" and old: "\<forall>x\<in>set c. timestamp (snd x) < now"
  shows "entryKept url \<lparr> html = markup, timestamp = now \<rparr> 0 (setCachedResult url markup now c)"
proof -
  let ?e = "\<lparr> html = markup, timestamp = now \<rparr>"
  from map_set_split [of url ?e c] obtain us vs where c': "map_set url ?e c = us @ (url, ?e) # vs"
    and us: "set us \<subseteq> set c" and vs: "set vs \<subseteq> set c" by blast
  from us old have "\<forall>x\<in>set us. \<not> now < timestamp (snd x)" by force
  then have "filter (\<lambda>x. timestamp ?e < timestamp (snd x)) us = []"
    by (simp add: filter_empty_conv)
  moreover from vs old have "\<forall>x\<in>set vs. \<not> now \<le> timestamp (snd x)" by force
  then have "filter (\<lambda>x. timestamp ?e \<le> timestamp (snd x)) vs = []"
    by (simp add: filter_empty_conv)
  moreover from d have "distinct (map fst (map_set url ?e c))" by (rule map_set_distinct)
  ultimately have "entryKept url ?e 0 (map_set url ?e c)"
    unfolding entryKept_def using c' by auto
  moreover have "0 < MAX_CACHE_SIZE" by (simp add: MAX_CACHE_SIZE_def)
  ultimately have "entryKept url ?e 0
           (if length (map_set url ?e c) > MAX_CACHE_SIZE
            then map_delete (fst (hd (sort_key (\<lambda>x. timestamp (snd x)) (map_set url ?e c))))
                   (map_set url ?e c)
            else map_set url ?e c)" by (rule entryKept_evicting)
  then show ?thesis by (simp only: setCachedResult_unfold)
qed

lemma run_append:
  "run (es @ es') s = (case run es s of None \<Rightarrow> None | Some s' \<Rightarrow> run es' s')"
  by (induction es arbitrary: s) (simp_all split: option.split)

lemma inFlight_iff:
  "inFlight s p \<longleftrightarrow> p < length (requests s) \<and>
     (req_phase (requests s ! p) = Fetching \<or> (\<exists>due. req_phase (requests s ! p) = AwaitingTimer due))"
  by (auto simp: inFlight_def split: phase.splits)

text \<open>After the page of request \<open>p\<close> is cached, no request for its URL is in flight.\<close>

lemma cachedFor_pageFetched:
  assumes f: "pageFetched p markup now s = Some s'"
    and inv: "pendingInvariant s"
    and d: "distinct (map fst (cache s))"
    and old: "\<forall>x\<in>set (cache s). timestamp (snd x) < now"
  shows "cachedFor (req_url (requests s ! p)) \<lparr> html = markup, timestamp = now \<rparr> 0 s'"
proof -
  let ?u = "req_url (requests s ! p)"
  from pageFetched_effect [OF f] have p: "p < length (requests s)"
    and ph: "req_phase (requests s ! p) = Fetching"
    and s': "s' = setPhase p (Closing markup)
                (s\<lparr> cache := setCachedResult ?u markup now (cache s) \<rparr>)"
    by blast+
  have c: "cache s' = setCachedResult ?u markup now (cache s)" by (simp add: s')
  from d old have 1: "entryKept ?u \<lparr> html = markup, timestamp = now \<rparr> 0 (cache s')"
    unfolding c by (rule entryKept_put)
  from p ph have up: "unsettled s p" by (simp add: unsettled_iff)
  with inv have mp: "map_of (pendingRequests s) ?u = Some p" by (simp add: pendingInvariant_def)
  have 2: "req_url (requests s' ! q) \<noteq> ?u" if q: "inFlight s' q" for q
  proof -
    from q have ql: "q < length (requests s)" by (simp add: inFlight_iff s')
    from q ql have qp: "q \<noteq> p" by (auto simp: inFlight_iff s')
    with q ql have "inFlight s q" by (simp add: inFlight_iff s')
    then have "unsettled s q" by (rule inFlight_unsettled)
    with inv have "map_of (pendingRequests s) (req_url (requests s ! q)) = Some q"
      by (simp add: pendingInvariant_def)
    with mp qp have "req_url (requests s ! q) \<noteq> ?u" by auto
    with ql show ?thesis by (simp add: s')
  qed
  from 1 2 show ?thesis unfolding cachedFor_def by blast
qed

lemma cachedFor_hit:
  assumes c: "cachedFor url e n s" and h: "html e \<noteq> []" and t: "tc - timestamp e < CACHE_DURATION"
  shows "scrape url tc tr tu s = (FromCache (html e), s)"
proof -
  from c have "entryKept url e n (cache s)" by (simp add: cachedFor_def)
  then have "map_of (cache s) url = Some e" by (rule entryKept_map_of)
  with t have "getCachedResult url tc (cache s) = Some (html e)" by (simp add: getCachedResult_Some)
  from this h show ?thesis by (rule scrape_hit)
qed

lemma cachedFor_scrape:
  assumes c: "cachedFor url e n s" and h: "html e \<noteq> []"
    and t: "tc - timestamp e < CACHE_DURATION" and le: "tc' \<le> tc"
  shows "cachedFor url e n (snd (scrape url' tc' tr tu s))"
proof (cases "url' = url")
  case True
  from le t have "tc' - timestamp e < CACHE_DURATION" by simp
  from cachedFor_hit [OF c h this, of tr tu] True c show ?thesis by simp
next
  case False
  let ?s' = "snd (scrape url' tc' tr tu s)"
  from scrape_effect [of url' tc' tr tu s] consider
      (same) "?s' = s"
    | (new) ph where "cache ?s' = cache s"
        "requests ?s' = requests s @ [\<lparr> req_url = url', req_phase = ph \<rparr>]"
    by blast
  then show ?thesis
  proof cases
    case same
    with c show ?thesis by simp
  next
    case (new ph)
    from c new(1) have 1: "entryKept url e n (cache ?s')" by (simp add: cachedFor_def)
    have 2: "req_url (requests ?s' ! q) \<noteq> url" if q: "inFlight ?s' q" for q
    proof (cases "q < length (requests s)")
      case True
      then have same: "requests ?s' ! q = requests s ! q" by (simp add: new(2) nth_append)
      with q True have "inFlight s q" by (simp add: inFlight_iff)
      with c have "req_url (requests s ! q) \<noteq> url" by (simp add: cachedFor_def)
      with same show ?thesis by simp
    next
      case False
      with q have "q = length (requests s)" by (simp add: inFlight_iff new(2))
      then have "req_url (requests ?s' ! q) = url'" by (simp add: new(2))
      with \<open>url' \<noteq> url\<close> show ?thesis by simp
    qed
    from 1 2 show ?thesis unfolding cachedFor_def by blast
  qed
qed

lemma cachedFor_timerFires:
  assumes f: "timerFires p now s = Some s'" and c: "cachedFor url e n s"
  shows "cachedFor url e n s'"
proof -
  from timerFires_effect [OF f] obtain due where p: "p < length (requests s)"
    and ph: "req_phase (requests s ! p) = AwaitingTimer due"
    and s': "s' = setPhase p Fetching (s\<lparr> lastRequestTime := now \<rparr>)" by blast
  from p ph have "inFlight s p" by (simp add: inFlight_iff)
  with c have pu: "req_url (requests s ! p) \<noteq> url" by (simp add: cachedFor_def)
  from c have 1: "entryKept url e n (cache s')" by (simp add: cachedFor_def s')
  have 2: "req_url (requests s' ! q) \<noteq> url" if q: "inFlight s' q" for q
  proof (cases "q = p")
    case True
    with p pu show ?thesis by (simp add: s')
  next
    case False
    from q have ql: "q < length (requests s)" by (simp add: inFlight_iff s')
    with q False have "inFlight s q" by (simp add: inFlight_iff s')
    with c have "req_url (requests s ! q) \<noteq> url" by (simp add: cachedFor_def)
    with ql show ?thesis by (simp add: s')
  qed
  from 1 2 show ?thesis unfolding cachedFor_def by blast
qed

lemma cachedFor_later_page:
  assumes f: "pageFetched p markup now s = Some s'" and c: "cachedFor url e n s"
    and n: "Suc n < MAX_CACHE_SIZE"
  shows "cachedFor url e (Suc n) s'"
proof -
  from pageFetched_effect [OF f] have p: "p < length (requests s)"
    and ph: "req_phase (requests s ! p) = Fetching"
    and s': "s' = setPhase p (Closing markup)
                (s\<lparr> cache := setCachedResult (req_url (requests s ! p)) markup now (cache s) \<rparr>)"
    by blast+
  from p ph have "inFlight s p" by (simp add: inFlight_iff)
  with c have pu: "req_url (requests s ! p) \<noteq> url" by (simp add: cachedFor_def)
  from c have "entryKept url e n (cache s)" by (simp add: cachedFor_def)
  from entryKept_setCachedResult [OF this pu n]
  have 1: "entryKept url e (Suc n) (cache s')" by (simp add: s')
  have 2: "req_url (requests s' ! q) \<noteq> url" if q: "inFlight s' q" for q
  proof -
    from q have ql: "q < length (requests s)" by (simp add: inFlight_iff s')
    from q ql have "q \<noteq> p" by (auto simp: inFlight_iff s')
    with q ql have "inFlight s q" by (simp add: inFlight_iff s')
    with c have "req_url (requests s ! q) \<noteq> url" by (simp add: cachedFor_def)
    with ql show ?thesis by (simp add: s')
  qed
  from 1 2 show ?thesis unfolding cachedFor_def by blast
qed

lemma cachedFor_settles:
  assumes f: "settles p out s = Some s'" and c: "cachedFor url e n s"
  shows "cachedFor url e n s'"
proof -
  from settles_effect [OF f] have p: "p < length (requests s)"
    and s': "s' = setPhase p (Settled out)
                (s\<lparr> pendingRequests := map_delete (req_url (requests s ! p)) (pendingRequests s) \<rparr>)"
    by blast+
  from c have 1: "entryKept url e n (cache s')" by (simp add: cachedFor_def s')
  have 2: "req_url (requests s' ! q) \<noteq> url" if q: "inFlight s' q" for q
  proof -
    from q have ql: "q < length (requests s)" by (simp add: inFlight_iff s')
    from q ql have "q \<noteq> p" by (auto simp: inFlight_iff s')
    with q ql have "inFlight s q" by (simp add: inFlight_iff s')
    with c have "req_url (requests s ! q) \<noteq> url" by (simp add: cachedFor_def)
    with ql show ?thesis by (simp add: s')
  qed
  from 1 2 show ?thesis unfolding cachedFor_def by blast
qed

text \<open>
  Steps that cache fewer than fifty pages, with calls that read no later clock than a
  time at which the entry is fresh, leave the entry in the cache.
\<close>

lemma cachedFor_run:
  assumes h: "html e \<noteq> []" and t: "tc - timestamp e < CACHE_DURATION"
  shows "run es s = Some s' \<Longrightarrow> cachedFor url e n s \<Longrightarrow> callsBy tc es \<Longrightarrow>
         n + pagesCached es < MAX_CACHE_SIZE \<Longrightarrow> cachedFor url e (n + pagesCached es) s'"
proof (induction es arbitrary: s n)
  case Nil
  then show ?case by simp
next
  case (Cons ev es)
  from Cons.prems(1) obtain s1 where 1: "step ev s = Some s1" and 2: "run es s1 = Some s'"
    by (auto split: option.splits)
  show ?case
  proof (cases ev)
    case (Scrape url' tc' tr tu)
    with Cons.prems(3) have le: "tc' \<le> tc" and cb: "callsBy tc es" by simp_all
    from 1 Scrape have "s1 = snd (scrape url' tc' tr tu s)" by simp
    with cachedFor_scrape [OF Cons.prems(2) h t le] have c1: "cachedFor url e n s1" by simp
    from Cons.prems(4) Scrape have "n + pagesCached es < MAX_CACHE_SIZE" by simp
    from Cons.IH [OF 2 c1 cb this] Scrape show ?thesis by simp
  next
    case (TimerFires p now)
    with Cons.prems(3) have cb: "callsBy tc es" by simp
    from 1 TimerFires have "timerFires p now s = Some s1" by simp
    from cachedFor_timerFires [OF this Cons.prems(2)] have c1: "cachedFor url e n s1" .
    from Cons.prems(4) TimerFires have "n + pagesCached es < MAX_CACHE_SIZE" by simp
    from Cons.IH [OF 2 c1 cb this] TimerFires show ?thesis by simp
  next
    case (PageFetched p markup now)
    with Cons.prems(3) have cb: "callsBy tc es" by simp
    from Cons.prems(4) PageFetched have n: "Suc n + pagesCached es < MAX_CACHE_SIZE" by simp
    then have n': "Suc n < MAX_CACHE_SIZE" by simp
    from 1 PageFetched have "pageFetched p markup now s = Some s1" by simp
    from cachedFor_later_page [OF this Cons.prems(2) n'] have c1: "cachedFor url e (Suc n) s1" .
    from Cons.IH [OF 2 c1 cb n] PageFetched show ?thesis by simp
  next
    case (Settles p out)
    with Cons.prems(3) have cb: "callsBy tc es" by simp
    from 1 Settles have "settles p out s = Some s1" by simp
    from cachedFor_settles [OF this Cons.prems(2)] have c1: "cachedFor url e n s1" .
    from Cons.prems(4) Settles have "n + pagesCached es < MAX_CACHE_SIZE" by simp
    from Cons.IH [OF 2 c1 cb this] Settles show ?thesis by simp
  qed
qed

lemma reachable_cache_distinct:
  "run es initialState = Some s \<Longrightarrow> distinct (map fst (cache s))"
  using run_cache_bounded [of es initialState s] by (simp add: initialState_def)

lemma getCachedResult_stale:
  "map_of c url = Some e \<Longrightarrow> CACHE_DURATION \<le> now - timestamp e \<Longrightarrow>
   getCachedResult url now c = None"
  by (simp add: getCachedResult_def)

lemma getCachedResult_deleted: "getCachedResult url now (map_delete url c) = None"
  by (simp add: getCachedResult_def map_of_map_delete)

lemma scrape_miss_answer:
  assumes "getCachedResult url tc (cache s) = None" "getCachedResult url tc (cache s') = None"
    "pendingRequests s' = pendingRequests s" "requests s' = requests s"
  shows "fst (scrape url tc tr tu s) = fst (scrape url tc tr tu s')"
  using assms by (simp add: scrape_def Let_def split: option.split)

text \<open>
  Why the markup must not be empty: \<^verbatim>\<open>if (cachedResult)\<close> fails on the empty string, so a
  page cached as empty is fetched again two seconds later.
\<close>

lemma scrape_refetches_empty_page:
  "map_option (\<lambda>s. (map_of (cache s) [0], fst (scrape [0] 12000 12000 12000 s)))
     (run [Scrape [0] 10000 10000 10000, PageFetched 0 [] 10000, Settles 0 (Resolved [])]
        initialState) =
   Some (Some \<lparr> html = [], timestamp = 10000 \<rparr>, Created 1)"
  by code_simp

text \<open>
  C6, amended. A call of \<^verbatim>\<open>scrape\<close> for a URL made after a successful fetch of that URL
  is answered from the cache, with the markup that fetch has cached and with the whole
  state left as it is (no request made, the rate limiter's timestamp and the pending
  requests untouched), when: the module has reached \<open>s0\<close>; there the page of request
  \<open>p\<close> is read and \<^verbatim>\<open>setCachedResult\<close> puts it, non-empty, at a clock reading \<open>t0\<close> later
  than every timestamp in the cache; the steps since then have cached fewer than fifty
  pages, and their calls have read no later clock than this call, which reads one less
  than the TTL after \<open>t0\<close>. And an entry as old as the TTL or older is answered as if it
  were not in the cache, and the call, up to its \<^verbatim>\<open>return\<close>, leaves the cache as it is:
  the entry stays until a later put replaces or evicts it.
\<close>

theorem scrape_cache_hit:
  "(run es initialState = Some s0 \<and>
    pageFetched p markup t0 s0 = Some s1 \<and> markup \<noteq> [] \<and>
    (\<forall>x\<in>set (cache s0). timestamp (snd x) < t0) \<and>
    run es' s1 = Some s2 \<and> pagesCached es' < MAX_CACHE_SIZE \<and> callsBy tc es' \<and>
    tc - t0 < CACHE_DURATION \<longrightarrow>
      scrape (req_url (requests s0 ! p)) tc tr tu s2 = (FromCache markup, s2)) \<and>
   (map_of (cache s) url = Some e \<and> CACHE_DURATION \<le> tc' - timestamp e \<longrightarrow>
      fst (scrape url tc' tr tu s) =
        fst (scrape url tc' tr tu (s\<lparr> cache := map_delete url (cache s) \<rparr>)) \<and>
      cache (snd (scrape url tc' tr tu s)) = cache s)"
proof (intro conjI impI)
  assume a: "run es initialState = Some s0 \<and>
    pageFetched p markup t0 s0 = Some s1 \<and> markup \<noteq> [] \<and>
    (\<forall>x\<in>set (cache s0). timestamp (snd x) < t0) \<and>
    run es' s1 = Some s2 \<and> pagesCached es' < MAX_CACHE_SIZE \<and> callsBy tc es' \<and>
    tc - t0 < CACHE_DURATION"
  let ?e = "\<lparr> html = markup, timestamp = t0 \<rparr>"
  from a have r0: "run es initialState = Some s0" and f: "pageFetched p markup t0 s0 = Some s1"
    and old: "\<forall>x\<in>set (cache s0). timestamp (snd x) < t0" and r1: "run es' s1 = Some s2"
    and cb: "callsBy tc es'" by blast+
  from a have h: "html ?e \<noteq> []" and t: "tc - timestamp ?e < CACHE_DURATION"
    and n: "0 + pagesCached es' < MAX_CACHE_SIZE" by simp_all
  from r0 have inv: "pendingInvariant s0" using pendingInvariant_initial by (rule pendingInvariant_run)
  from r0 have d: "distinct (map fst (cache s0))" by (rule reachable_cache_distinct)
  from cachedFor_pageFetched [OF f inv d old]
  have "cachedFor (req_url (requests s0 ! p)) ?e 0 s1" .
  from cachedFor_run [OF h t r1 this cb n]
  have "cachedFor (req_url (requests s0 ! p)) ?e (0 + pagesCached es') s2" .
  from cachedFor_hit [OF this h t, of tr tu]
  show "scrape (req_url (requests s0 ! p)) tc tr tu s2 = (FromCache markup, s2)" by simp
next
  assume "map_of (cache s) url = Some e \<and> CACHE_DURATION \<le> tc' - timestamp e"
  then have "getCachedResult url tc' (cache s) = None" by (simp add: getCachedResult_stale)
  moreover have "getCachedResult url tc' (cache (s\<lparr> cache := map_delete url (cache s) \<rparr>)) = None"
    by (simp add: getCachedResult_deleted)
  ultimately show "fst (scrape url tc' tr tu s) =
        fst (scrape url tc' tr tu (s\<lparr> cache := map_delete url (cache s) \<rparr>))"
    by (rule scrape_miss_answer) simp_all
next
  show "cache (snd (scrape url tc' tr tu s)) = cache s" by (rule scrape_cache)
qed

text \<open>
  The amended C6 on a cache that overflows. Ten pages are cached, then the page of an
  eleventh URL, at 30000; forty-nine further pages follow, whose puts evict the first ten
  entries. A call for the eleventh URL at 130000 is answered from the cache. A call at
  630000, when the entry is as old as the TTL, is answered as without the entry, which
  stays in the cache.
\<close>

theorem scrape_cache_hit_witness:
  "\<exists>s0 s1 s2.
     run beforeFetch initialState = Some s0 \<and> length (cache s0) = 10 \<and>
     pageFetched 10 (js ''<html>'') 30000 s0 = Some s1 \<and>
     run afterFetch s1 = Some s2 \<and> pagesCached afterFetch = 49 \<and>
     map fst (cache s2) = map (\<lambda>i. [of_nat i]) [10..<60] \<and>
     scrape [10] 130000 130000 130000 s2 = (FromCache (js ''<html>''), s2) \<and>
     fst (scrape [10] 630000 630000 630000 s2) =
       fst (scrape [10] 630000 630000 630000 (s2\<lparr> cache := map_delete [10] (cache s2) \<rparr>)) \<and>
     cache (snd (scrape [10] 630000 630000 630000 s2)) = cache s2"
proof -
  let ?h = "js ''<html>''"
  have "map_option (\<lambda>s. (list_all (\<lambda>x. timestamp (snd x) < 30000) (cache s),
            req_url (requests s ! 10), length (cache s))) (run beforeFetch initialState) =
        Some (True, [10], 10)" by code_simp
  then obtain s0 where s0: "run beforeFetch initialState = Some s0"
    and old: "list_all (\<lambda>x. timestamp (snd x) < 30000) (cache s0)"
    and u: "req_url (requests s0 ! 10) = [10]" and l0: "length (cache s0) = 10" by auto
  have "Option.bind (run beforeFetch initialState) (\<lambda>s.
          Option.bind (pageFetched 10 ?h 30000 s) (\<lambda>s'.
            map_option (\<lambda>s''. (map_of (cache s'') [10], map fst (cache s''))) (run afterFetch s'))) =
        Some (Some \<lparr> html = ?h, timestamp = 30000 \<rparr>, map (\<lambda>i. [of_nat i]) [10..<60])"
    by code_simp
  with s0 obtain s1 s2 where s1: "pageFetched 10 ?h 30000 s0 = Some s1"
    and s2: "run afterFetch s1 = Some s2"
    and e: "map_of (cache s2) [10] = Some \<lparr> html = ?h, timestamp = 30000 \<rparr>"
    and k: "map fst (cache s2) = map (\<lambda>i. [of_nat i]) [10..<60]"
    by (auto simp: bind_eq_Some_conv)
  from old have old': "\<forall>x\<in>set (cache s0). timestamp (snd x) < 30000" by (simp only: list_all_iff)
  have n: "pagesCached afterFetch = 49" by code_simp
  then have n': "pagesCached afterFetch < MAX_CACHE_SIZE" by (simp add: MAX_CACHE_SIZE_def)
  have cb: "callsBy 130000 afterFetch" by code_simp
  have h: "?h \<noteq> []" by (simp add: js_def)
  have t: "130000 - 30000 < CACHE_DURATION"
    "CACHE_DURATION \<le> 630000 - timestamp \<lparr> html = ?h, timestamp = 30000 \<rparr>"
    by (simp_all add: CACHE_DURATION_def)
  from scrape_cache_hit [of beforeFetch s0 10 ?h 30000 s1 afterFetch s2 130000 130000 130000,
      THEN conjunct1] s0 s1 h old' s2 n' cb t(1) u
  have 1: "scrape [10] 130000 130000 130000 s2 = (FromCache ?h, s2)" by simp
  from scrape_cache_hit [of _ _ _ _ _ _ _ _ _ 630000 630000 s2 "[10]"
      "\<lparr> html = ?h, timestamp = 30000 \<rparr>" 630000, THEN conjunct2] e t(2)
  have 2: "fst (scrape [10] 630000 630000 630000 s2) =
       fst (scrape [10] 630000 630000 630000 (s2\<lparr> cache := map_delete [10] (cache s2) \<rparr>))"
    and 3: "cache (snd (scrape [10] 630000 630000 630000 s2)) = cache s2" by simp_all
  from s0 l0 s1 s2 n k 1 2 3 show ?thesis by blast
qed

end
